theory Spec2Isabelle
  imports Complex_Main "HOL-Library.AList" "HOL-Library.Multiset"
begin

section \<open>Python values and containers\<close>

text \<open>
  The scripts are Python. A \<^verbatim>\<open>dict\<close> keeps its keys in insertion order and the order is
  observable (iteration, the emitted JSON), so a dict is an association list whose keys are
  distinct: \<open>d[k] = v\<close> is \<^const>\<open>AList.update\<close> (replace in place, or append a new key at the
  end), \<open>d.get(k, default)\<close> is \<open>dict_get\<close>, \<open>d.items()\<close> is the list itself.
  Exceptions are values of \<open>py_error\<close>.
\<close>

datatype py_error = TypeError | AttributeError | ValueError

type_synonym ('k, 'v) py_dict = "('k \<times> 'v) list"

definition dict_get :: "('k, 'v) py_dict \<Rightarrow> 'k \<Rightarrow> 'v \<Rightarrow> 'v" where
  "dict_get d k dflt = (case map_of d k of None \<Rightarrow> dflt | Some v \<Rightarrow> v)"

text \<open>
  \<open>dict.fromkeys(xs)\<close> inserts the elements of \<open>xs\<close> as keys, in order, each with the value
  \<open>None\<close>; \<open>list(d)\<close> lists the keys of a dict in insertion order.
\<close>

definition dict_fromkeys :: "'a list \<Rightarrow> ('a, unit) py_dict" where
  "dict_fromkeys xs = fold (\<lambda>x d. AList.update x () d) xs []"

definition list_of_dict :: "('k, 'v) py_dict \<Rightarrow> 'k list" where
  "list_of_dict d = map fst d"

text \<open>
  \<open>range(start, stop, step)\<close> for a positive step, as the list a \<open>for\<close> loop walks;
  a step of zero raises \<open>ValueError\<close> when the range is built.
\<close>

function range_list :: "nat \<Rightarrow> nat \<Rightarrow> nat \<Rightarrow> nat list" where
  "range_list start stop step =
     (if step = 0 \<or> stop \<le> start then [] else start # range_list (start + step) stop step)"
  by pat_completeness auto
termination
  by (relation "measure (\<lambda>(start, stop, step). stop - start)") auto

declare range_list.simps [simp del]

definition py_range :: "nat \<Rightarrow> nat \<Rightarrow> nat \<Rightarrow> py_error + nat list" where
  "py_range start stop step =
     (if step = 0 then Inl ValueError else Inr (range_list start stop step))"

text \<open>
  \<open>xs.sort(key=f, reverse=True)\<close> and \<open>sorted(xs, key=f, reverse=True)\<close>: Python's sort is
  stable, and with \<open>reverse=True\<close> it sorts as if each comparison were reversed, which keeps
  elements of equal key in their original order. That is the stable sort on the negated key.
\<close>

definition sort_reverse :: "('a \<Rightarrow> int) \<Rightarrow> 'a list \<Rightarrow> 'a list" where
  "sort_reverse f xs = sort_key (\<lambda>x. - f x) xs"

text \<open>\<open>str(n)\<close> for a natural number, and \<open>os.path.join\<close> of two POSIX path components.\<close>

fun str_nat :: "nat \<Rightarrow> string" where
  "str_nat n =
     (if n < 10 then [char_of (48 + n)]
      else str_nat (n div 10) @ [char_of (48 + n mod 10)])"

definition path_join :: "string \<Rightarrow> string \<Rightarrow> string" where
  "path_join a b =
     (if b \<noteq> [] \<and> hd b = CHR ''/'' then b
      else if a = [] \<or> last a = CHR ''/'' then a @ b
      else a @ ''/'' @ b)"

section \<open>organize\_comments\_static.py: the static comment organizer\<close>

text \<open>
  Post identifiers (shortcodes) and comment identifiers are strings. The organizer object
  holds the chunk size and the index under construction; the files it writes are recorded
  as a log of file-system events, in the order the code performs them. The progress
  messages the code prints and failures of the file system are left out.
\<close>

record chunk_data =
  shortcode :: string
  chunk_index :: nat
  comment_ids :: "string list"
  count_c :: nat

record chunk_desc =
  index_d :: nat
  count_d :: nat
  file_d :: string

record post_entry =
  total_comments :: nat
  chunks :: "chunk_desc list"
  chunk_count :: nat

record index_stats =
  total_posts :: nat
  total_comments_s :: nat
  total_chunks :: nat

record index_data =
  posts :: "(string, post_entry) py_dict"
  stats :: index_stats

record summary_post =
  shortcode_p :: string
  comment_count :: nat

record summary_data =
  posts_s :: "summary_post list"
  stats_s :: index_stats

datatype fs_event =
    MakeDirs string
  | WriteChunk string chunk_data
  | WriteIndex string index_data
  | WriteSummary string summary_data

record organizer =
  comments_dir :: string
  output_dir :: string
  chunk_size :: nat
  index_data :: index_data

text \<open>\<open>StaticCommentOrganizer.__init__\<close>: the chunk size is 1000 and the index is empty.\<close>

definition organizer_init :: "string \<Rightarrow> string \<Rightarrow> organizer" where
  "organizer_init cdir odir =
     \<lparr>comments_dir = cdir, output_dir = odir, chunk_size = 1000,
      index_data = \<lparr>posts = [],
        stats = \<lparr>total_posts = 0, total_comments_s = 0, total_chunks = 0\<rparr>\<rparr>\<rparr>"

subsection \<open>deduplicate\_comments\<close>

text \<open>
  \<open>unique_comments = list(dict.fromkeys(comments))\<close>, and the loop that stores it back under
  the same key of the dict it iterates over. The loop assigns only to keys that exist, so
  the iteration is not disturbed.
\<close>

definition unique_comments :: "'a list \<Rightarrow> 'a list" where
  "unique_comments comments = list_of_dict (dict_fromkeys comments)"

definition deduplicate_loop :: "('k, 'a list) py_dict \<Rightarrow> ('k, 'a list) py_dict" where
  "deduplicate_loop shortcode_comments =
     fold (\<lambda>(shortcode, comments) d. AList.update shortcode (unique_comments comments) d)
       shortcode_comments shortcode_comments"

text \<open>
  The argument of \<open>deduplicate_comments\<close> is a reference to a dict object, and so is its
  result: the caller's dict and the returned dict are compared as objects. The store maps
  each reference to the dict it holds.
\<close>

type_synonym ref = nat

type_synonym 'd store = "ref \<Rightarrow> 'd"

definition deduplicate_comments ::
  "ref \<Rightarrow> ('k, 'a list) py_dict store \<Rightarrow> ref \<times> ('k, 'a list) py_dict store" where
  "deduplicate_comments shortcode_comments h =
     (shortcode_comments, h(shortcode_comments := deduplicate_loop (h shortcode_comments)))"

text \<open>The position at which a value first appears in a list (its length when absent).\<close>

definition first_index :: "'a list \<Rightarrow> 'a \<Rightarrow> nat" where
  "first_index xs x = length (takeWhile (\<lambda>y. y \<noteq> x) xs)"

subsection \<open>create\_chunked\_files\<close>

text \<open>
  One pass of the inner loop: slice the chunk, write its file, append its descriptor,
  count it. The loop state is the event log, the descriptor list \<open>chunks\<close> and the
  counter \<open>total_chunks\<close>.
\<close>

definition chunk_file_name :: "string \<Rightarrow> nat \<Rightarrow> string" where
  "chunk_file_name sc k = ''posts/'' @ sc @ ''/chunk_'' @ str_nat k @ ''.json''"

definition chunk_step ::
  "nat \<Rightarrow> string \<Rightarrow> string \<Rightarrow> string list \<Rightarrow> nat \<Rightarrow>
   fs_event list \<times> chunk_desc list \<times> nat \<Rightarrow> fs_event list \<times> chunk_desc list \<times> nat" where
  "chunk_step csize post_dir sc comments i = (\<lambda>(fs, chunks_acc, total_chunks_acc).
     (let chunk = take csize (drop i comments);
          chunk_idx = i div csize;
          chunk_data = \<lparr>shortcode = sc, chunk_index = chunk_idx, comment_ids = chunk,
                        count_c = length chunk\<rparr>;
          chunk_file = path_join post_dir (''chunk_'' @ str_nat chunk_idx @ ''.json'')
      in (fs @ [WriteChunk chunk_file chunk_data],
          chunks_acc @ [\<lparr>index_d = chunk_idx, count_d = length chunk,
                         file_d = chunk_file_name sc chunk_idx\<rparr>],
          total_chunks_acc + 1)))"

record ccf_state =
  self_o :: organizer
  fs_log :: "fs_event list"
  total_comments_v :: nat
  total_chunks_v :: nat

definition process_post :: "string \<Rightarrow> string list \<Rightarrow> ccf_state \<Rightarrow> py_error + ccf_state" where
  "process_post sc comments st =
     (let self = self_o st;
          post_dir = path_join (path_join (output_dir self) ''posts'') sc;
          fs1 = fs_log st @ [MakeDirs post_dir]
      in case py_range 0 (length comments) (chunk_size self) of
           Inl e \<Rightarrow> Inl e
         | Inr is \<Rightarrow>
             (case fold (chunk_step (chunk_size self) post_dir sc comments) is
                     (fs1, [], total_chunks_v st) of
                (fs2, chunks_acc, total_chunks_acc) \<Rightarrow>
                  Inr \<lparr>self_o = self\<lparr>index_data := (index_data self)\<lparr>posts :=
                          AList.update sc
                            \<lparr>total_comments = length comments, chunks = chunks_acc,
                             chunk_count = length chunks_acc\<rparr>
                            (posts (index_data self))\<rparr>\<rparr>,
                       fs_log = fs2,
                       total_comments_v = total_comments_v st + length comments,
                       total_chunks_v = total_chunks_acc\<rparr>))"

fun posts_loop :: "(string, string list) py_dict \<Rightarrow> ccf_state \<Rightarrow> py_error + ccf_state" where
  "posts_loop [] st = Inr st"
| "posts_loop ((sc, comments) # rest) st =
     (if comments = [] then posts_loop rest st
      else case process_post sc comments st of
             Inl e \<Rightarrow> Inl e
           | Inr st' \<Rightarrow> posts_loop rest st')"

definition create_chunked_files ::
  "organizer \<Rightarrow> fs_event list \<Rightarrow> (string, string list) py_dict \<Rightarrow>
   py_error + organizer \<times> fs_event list" where
  "create_chunked_files self fs shortcode_comments =
     (case posts_loop shortcode_comments
             \<lparr>self_o = self, fs_log = fs, total_comments_v = 0, total_chunks_v = 0\<rparr> of
        Inl e \<Rightarrow> Inl e
      | Inr st \<Rightarrow>
          Inr ((self_o st)\<lparr>index_data := (index_data (self_o st))\<lparr>stats :=
                  \<lparr>total_posts = length (posts (index_data (self_o st))),
                   total_comments_s = total_comments_v st,
                   total_chunks = total_chunks_v st\<rparr>\<rparr>\<rparr>,
               fs_log st))"

text \<open>The chunk files an event log holds for one post, in the order they were written.\<close>

fun chunk_of_event :: "fs_event \<Rightarrow> chunk_data list" where
  "chunk_of_event (WriteChunk p c) = [c]"
| "chunk_of_event _ = []"

definition chunks_written :: "fs_event list \<Rightarrow> string \<Rightarrow> chunk_data list" where
  "chunks_written fs sc = filter (\<lambda>c. shortcode c = sc) (concat (map chunk_of_event fs))"

subsection \<open>create\_index\_files\<close>

definition summary_posts :: "organizer \<Rightarrow> summary_post list" where
  "summary_posts self =
     sort_reverse (\<lambda>x. int (comment_count x))
       (map (\<lambda>(sc, data). \<lparr>shortcode_p = sc, comment_count = total_comments data\<rparr>)
          (posts (index_data self)))"

definition create_index_files :: "organizer \<Rightarrow> fs_event list \<Rightarrow> fs_event list" where
  "create_index_files self fs =
     (let index_file = path_join (output_dir self) ''index.json'';
          fs1 = fs @ [WriteIndex index_file (index_data self)];
          summary_file = path_join (output_dir self) ''summary.json''
      in fs1 @ [WriteSummary summary_file
                  \<lparr>posts_s = summary_posts self, stats_s = stats (index_data self)\<rparr>])"

subsection \<open>Auxiliary functions for the statements\<close>

text \<open>
  The key list of a dict after one more key is stored; the chunk file, the descriptor and the
  write event of the inner loop at position \<open>i\<close>; what the loop body does for one
  non-empty post, and for any post.
\<close>

definition ins_key :: "'a list \<Rightarrow> 'a \<Rightarrow> 'a list" where
  "ins_key ks x = (if x \<in> set ks then ks else ks @ [x])"

definition chunk_at :: "nat \<Rightarrow> string \<Rightarrow> string list \<Rightarrow> nat \<Rightarrow> chunk_data" where
  "chunk_at csize sc comments i =
     \<lparr>shortcode = sc, chunk_index = i div csize, comment_ids = take csize (drop i comments),
      count_c = length (take csize (drop i comments))\<rparr>"

definition desc_at :: "nat \<Rightarrow> string \<Rightarrow> string list \<Rightarrow> nat \<Rightarrow> chunk_desc" where
  "desc_at csize sc comments i =
     \<lparr>index_d = i div csize, count_d = length (take csize (drop i comments)),
      file_d = chunk_file_name sc (i div csize)\<rparr>"

definition write_at :: "nat \<Rightarrow> string \<Rightarrow> string \<Rightarrow> string list \<Rightarrow> nat \<Rightarrow> fs_event" where
  "write_at csize post_dir sc comments i =
     WriteChunk (path_join post_dir (''chunk_'' @ str_nat (i div csize) @ ''.json''))
       (chunk_at csize sc comments i)"

definition post_dir_of :: "string \<Rightarrow> string \<Rightarrow> string" where
  "post_dir_of odir sc = path_join (path_join odir ''posts'') sc"

definition post_events :: "string \<Rightarrow> nat \<Rightarrow> string \<Rightarrow> string list \<Rightarrow> fs_event list" where
  "post_events odir csize sc comments =
     MakeDirs (post_dir_of odir sc) #
     map (write_at csize (post_dir_of odir sc) sc comments)
       (range_list 0 (length comments) csize)"

definition post_entry_of :: "nat \<Rightarrow> string \<Rightarrow> string list \<Rightarrow> post_entry" where
  "post_entry_of csize sc comments =
     \<lparr>total_comments = length comments,
      chunks = map (desc_at csize sc comments) (range_list 0 (length comments) csize),
      chunk_count = length (range_list 0 (length comments) csize)\<rparr>"

definition post_done :: "string \<Rightarrow> string list \<Rightarrow> ccf_state \<Rightarrow> ccf_state" where
  "post_done sc comments st =
     \<lparr>self_o = (self_o st)\<lparr>index_data := (index_data (self_o st))\<lparr>posts :=
        AList.update sc (post_entry_of (chunk_size (self_o st)) sc comments)
          (posts (index_data (self_o st)))\<rparr>\<rparr>,
      fs_log = fs_log st
        @ post_events (output_dir (self_o st)) (chunk_size (self_o st)) sc comments,
      total_comments_v = total_comments_v st + length comments,
      total_chunks_v = total_chunks_v st
        + length (range_list 0 (length comments) (chunk_size (self_o st)))\<rparr>"

definition post_pass :: "string \<times> string list \<Rightarrow> ccf_state \<Rightarrow> ccf_state" where
  "post_pass = (\<lambda>(sc, comments) st. if comments = [] then st else post_done sc comments st)"

text \<open>The state in which \<open>create_chunked_files\<close> enters its loop over the posts.\<close>

definition ccf_start :: "organizer \<Rightarrow> fs_event list \<Rightarrow> ccf_state" where
  "ccf_start self fs = \<lparr>self_o = self, fs_log = fs, total_comments_v = 0, total_chunks_v = 0\<rparr>"

text \<open>The posts of the index in iteration order, as the entries the summary is built from.\<close>

definition index_posts_list :: "organizer \<Rightarrow> summary_post list" where
  "index_posts_list self =
     map (\<lambda>(sc, data). \<lparr>shortcode_p = sc, comment_count = total_comments data\<rparr>)
       (posts (index_data self))"

section \<open>preindex\_comments.py: the engagement indexes\<close>

text \<open>
  Text is modelled on ASCII strings. There \<open>str.lower\<close> maps \<open>A..Z\<close> to \<open>a..z\<close> and leaves
  every other character alone, \<open>str.split()\<close> splits at runs of the ASCII white space
  characters, and in a regular expression \<open>\w\<close> is a letter, a digit or the underscore.
  Outside ASCII Python consults the Unicode tables (other letters have lower-case forms,
  other characters are white space or word characters), which are not modelled: the
  statements about words are made for ASCII text (\<open>is_ascii\<close> below).
  \<open>runs P [] s\<close> lists the maximal runs of characters of \<open>s\<close> that satisfy \<open>P\<close>.
\<close>

definition ascii_uppercase :: string where
  "ascii_uppercase = ''ABCDEFGHIJKLMNOPQRSTUVWXYZ''"

definition ascii_lowercase :: string where
  "ascii_lowercase = ''abcdefghijklmnopqrstuvwxyz''"

definition lower_char :: "char \<Rightarrow> char" where
  "lower_char c = (case map_of (zip ascii_uppercase ascii_lowercase) c of None \<Rightarrow> c | Some l \<Rightarrow> l)"

definition lower :: "string \<Rightarrow> string" where
  "lower s = map lower_char s"

definition is_space :: "char \<Rightarrow> bool" where
  "is_space c = (c \<in> set [CHR 0x09, CHR 0x0A, CHR 0x0B, CHR 0x0C, CHR 0x0D,
                          CHR 0x1C, CHR 0x1D, CHR 0x1E, CHR 0x1F, CHR '' ''])"

definition is_alpha :: "char \<Rightarrow> bool" where
  "is_alpha c = (c \<in> set ascii_uppercase \<or> c \<in> set ascii_lowercase)"

definition is_word_char :: "char \<Rightarrow> bool" where
  "is_word_char c = (is_alpha c \<or> c \<in> set ''0123456789'' \<or> c = CHR ''_'')"

fun runs :: "(char \<Rightarrow> bool) \<Rightarrow> string \<Rightarrow> string \<Rightarrow> string list" where
  "runs P cur [] = (if cur = [] then [] else [cur])"
| "runs P cur (c # cs) =
     (if P c then runs P (cur @ [c]) cs
      else if cur = [] then runs P [] cs
      else cur # runs P [] cs)"

definition py_split :: "string \<Rightarrow> string list" where
  "py_split s = runs (\<lambda>c. \<not> is_space c) [] s"

text \<open>
  \<open>re.findall(r'\b[a-zA-Z]{3,}\b', s)\<close>: a match starts and ends at a word boundary and
  holds letters only, so the matches are the maximal runs of word characters that consist
  of at least three letters and nothing else.
\<close>

definition findall_words :: "string \<Rightarrow> string list" where
  "findall_words s = filter (\<lambda>w. 3 \<le> length w \<and> list_all is_alpha w) (runs is_word_char [] s)"

fun py_join :: "string \<Rightarrow> string list \<Rightarrow> string" where
  "py_join sep [] = []"
| "py_join sep [x] = x"
| "py_join sep (x # y # ys) = x @ sep @ py_join sep (y # ys)"

text \<open>
  An engagement record. \<open>video_id\<close> and \<open>comment_id\<close> are read with \<open>comment[...]\<close> and are
  always present; the other fields are read with \<open>comment.get(field, default)\<close> and may
  be absent. \<open>get_or v d\<close> is the value read for a field \<open>v\<close> with default \<open>d\<close>.
\<close>

record comment =
  video_id :: string
  comment_id :: string
  comment_text :: "string option"
  author_display_name :: "string option"
  like_count :: "int option"
  published_at :: "string option"
  published_at_timestamp :: "int option"

definition get_or :: "'a option \<Rightarrow> 'a \<Rightarrow> 'a" where
  "get_or v dflt = (case v of None \<Rightarrow> dflt | Some x \<Rightarrow> x)"

subsection \<open>create\_search\_index\<close>

record search_entry =
  words :: "string list"
  text_e :: string
  author :: string
  video_id_e :: string
  like_count_e :: int
  published_at_e :: string
  published_at_timestamp_e :: int

definition search_entry_of :: "comment \<Rightarrow> search_entry" where
  "search_entry_of c =
     (let searchable_text =
            lower (get_or (comment_text c) [] @ '' '' @ get_or (author_display_name c) [])
      in \<lparr>words = py_split searchable_text,
          text_e = get_or (comment_text c) [],
          author = get_or (author_display_name c) [],
          video_id_e = video_id c,
          like_count_e = get_or (like_count c) 0,
          published_at_e = get_or (published_at c) [],
          published_at_timestamp_e = get_or (published_at_timestamp c) 0\<rparr>)"

definition create_search_index :: "comment list \<Rightarrow> (string, search_entry) py_dict" where
  "create_search_index comments =
     fold (\<lambda>c search_index. AList.update (comment_id c) (search_entry_of c) search_index)
       comments []"

subsection \<open>create\_word\_frequency\_index\<close>

definition stop_words :: "string list" where
  "stop_words =
     [''the'', ''a'', ''an'', ''and'', ''or'', ''but'', ''in'', ''on'', ''at'', ''to'', ''for'',
      ''of'', ''with'', ''by'', ''from'', ''up'', ''about'', ''into'', ''through'', ''during'',
      ''before'', ''after'', ''above'', ''below'', ''between'', ''among'', ''throughout'',
      ''alongside'', ''towards'',
      ''i'', ''you'', ''he'', ''she'', ''it'', ''we'', ''they'', ''me'', ''him'', ''her'', ''us'',
      ''them'',
      ''my'', ''your'', ''his'', ''her'', ''its'', ''our'', ''their'', ''mine'', ''yours'', ''hers'',
      ''ours'', ''theirs'',
      ''am'', ''is'', ''are'', ''was'', ''were'', ''be'', ''been'', ''being'', ''have'', ''has'',
      ''had'',
      ''do'', ''does'', ''did'', ''will'', ''would'', ''could'', ''should'', ''may'', ''might'',
      ''must'',
      ''this'', ''that'', ''these'', ''those'', ''here'', ''there'', ''where'', ''when'', ''why'',
      ''how'',
      ''what'', ''who'', ''which'', ''whose'', ''whom'', ''not'', ''no'', ''yes'', ''can'', ''cant'',
      ''dont'', ''wont'', ''im'', ''youre'', ''hes'', ''shes'', ''were'', ''theyre'', ''ive'',
      ''youve'',
      ''also'', ''just'', ''really'', ''very'', ''so'', ''too'', ''now'', ''then'', ''well'',
      ''still'']"

text \<open>
  \<open>defaultdict(list)\<close>: \<open>d[k].append(v)\<close>. \<open>Counter(xs)\<close> counts in first-seen order, and
  \<open>most_common(n)\<close> is the first \<open>n\<close> of the stable sort by count, largest first.
\<close>

definition dd_append :: "'k \<Rightarrow> 'v \<Rightarrow> ('k, 'v list) py_dict \<Rightarrow> ('k, 'v list) py_dict" where
  "dd_append k v d = AList.update k (dict_get d k [] @ [v]) d"

definition counter :: "'a list \<Rightarrow> ('a, nat) py_dict" where
  "counter xs = fold (\<lambda>x d. AList.update x (dict_get d x 0 + 1) d) xs []"

definition most_common :: "nat \<Rightarrow> ('a, nat) py_dict \<Rightarrow> ('a \<times> nat) list" where
  "most_common n c = take n (sort_reverse (\<lambda>(x, k). int k) c)"

text \<open>
  Rounding half to even, as \<open>round\<close> does: \<open>py_round_div s n\<close> is the integer nearest to
  the quotient of \<open>s\<close> by a positive \<open>n\<close>, a tie going to the even neighbour.
\<close>

definition py_round_div :: "int \<Rightarrow> nat \<Rightarrow> int" where
  "py_round_div s n =
     (let q = s div int n; r = s mod int n
      in if 2 * r < int n then q
         else if int n < 2 * r then q + 1
         else if even q then q else q + 1)"

text \<open>
  \<open>round(s / n)\<close> for an integer \<open>s\<close> and a positive integer \<open>n\<close>: \<open>s / n\<close> is a float, the
  double nearest to the quotient (a tie going to the even mantissa), and \<open>round\<close> rounds
  that double. \<open>bit_length\<close> is \<open>int.bit_length\<close>. For positive \<open>a\<close> and \<open>b\<close>,
  \<open>float_exponent a b\<close> is the \<open>e\<close> with \<open>2^e \<le> a / b < 2^(e + 1)\<close>. A double has a mantissa
  of 53 bits, so the double nearest to \<open>a / b\<close> is \<open>m * 2^t\<close> with \<open>t = e - 52\<close> and \<open>m\<close> the
  integer nearest to \<open>a / (b * 2^t)\<close>; it is an integer already when \<open>t\<close> is not negative.
  Two limits of the doubles are left out. Below \<open>2^-1022\<close> doubles are spaced more widely,
  but there the quotient and every double near it round to 0. From \<open>2^1024\<close> on the
  division raises \<open>OverflowError\<close>, which is not modelled: the statements bound the like
  counts.
\<close>

fun bit_length :: "nat \<Rightarrow> nat" where
  "bit_length n = (if n = 0 then 0 else Suc (bit_length (n div 2)))"

declare bit_length.simps [simp del]

definition float_exponent :: "nat \<Rightarrow> nat \<Rightarrow> int" where
  "float_exponent a b =
     (let d = int (bit_length a) - int (bit_length b)
      in if b * 2 ^ nat d \<le> a * 2 ^ nat (- d) then d else d - 1)"

definition round_truediv :: "nat \<Rightarrow> nat \<Rightarrow> int" where
  "round_truediv a b =
     (let t = float_exponent a b - 52;
          m = py_round_div (int a * 2 ^ nat (- t)) (b * 2 ^ nat t)
      in if 0 \<le> t then m * 2 ^ nat t else py_round_div m (2 ^ nat (- t)))"

definition py_round_truediv :: "int \<Rightarrow> nat \<Rightarrow> int" where
  "py_round_truediv s n =
     (if s = 0 then 0
      else if s < 0 then - round_truediv (nat (- s)) n
      else round_truediv (nat s) n)"

text \<open>The words of one comment that are counted: tokens of the lower-cased text, stop words dropped.\<close>

definition comment_words :: "comment \<Rightarrow> string list" where
  "comment_words c =
     filter (\<lambda>word. word \<notin> set stop_words)
       (findall_words (lower (get_or (comment_text c) [])))"

definition likes :: "comment \<Rightarrow> int" where
  "likes c = get_or (like_count c) 0"

definition top_words :: "comment list \<Rightarrow> (string \<times> nat) list" where
  "top_words video_comment_list =
     (let all_text = py_join '' '' (map (\<lambda>c. get_or (comment_text c) []) video_comment_list);
          ws = findall_words (lower all_text);
          filtered_words = filter (\<lambda>word. word \<notin> set stop_words) ws
      in most_common 20 (counter filtered_words))"

definition liked_comments :: "comment list \<Rightarrow> comment list" where
  "liked_comments video_comment_list =
     sort_reverse likes (filter (\<lambda>c. 0 < likes c) video_comment_list)"

definition top_20_percent :: "comment list \<Rightarrow> nat" where
  "top_20_percent video_comment_list = max 1 (length (liked_comments video_comment_list) div 5)"

definition top_liked :: "comment list \<Rightarrow> comment list" where
  "top_liked video_comment_list =
     take (top_20_percent video_comment_list) (liked_comments video_comment_list)"

definition word_like_totals :: "comment list \<Rightarrow> (string, int list) py_dict" where
  "word_like_totals liked =
     fold (\<lambda>c d. fold (\<lambda>word d'. dd_append word (likes c) d') (comment_words c) d) liked []"

definition liked_word_averages :: "(string, int list) py_dict \<Rightarrow> (string \<times> int \<times> nat) list" where
  "liked_word_averages totals =
     map (\<lambda>(word, like_counts).
            (word, py_round_truediv (sum_list like_counts) (length like_counts),
             length like_counts))
       (filter (\<lambda>(word, like_counts). 2 \<le> length like_counts) totals)"

definition top_liked_words :: "comment list \<Rightarrow> (string \<times> int \<times> nat) list" where
  "top_liked_words video_comment_list =
     (if top_liked video_comment_list \<noteq> []
      then take 15 (sort_reverse (\<lambda>(word, avg, n). avg)
             (liked_word_averages (word_like_totals (top_liked video_comment_list))))
      else [])"

record cloud_word =
  word_w :: string
  count_w :: nat

record liked_word =
  word_l :: string
  avgLikes :: int
  count_l :: nat

record word_freq =
  word_cloud :: "cloud_word list"
  liked_words :: "liked_word list"

definition video_word_freq :: "comment list \<Rightarrow> word_freq" where
  "video_word_freq video_comment_list =
     \<lparr>word_cloud = map (\<lambda>(word, n). \<lparr>word_w = word, count_w = n\<rparr>) (top_words video_comment_list),
      liked_words = map (\<lambda>(word, avg, n). \<lparr>word_l = word, avgLikes = avg, count_l = n\<rparr>)
                      (top_liked_words video_comment_list)\<rparr>"

definition video_comments_of :: "comment list \<Rightarrow> (string, comment list) py_dict" where
  "video_comments_of comments = fold (\<lambda>c d. dd_append (video_id c) c d) comments []"

definition create_word_frequency_index :: "comment list \<Rightarrow> (string, word_freq) py_dict" where
  "create_word_frequency_index comments =
     fold (\<lambda>(vid, video_comment_list) d. AList.update vid (video_word_freq video_comment_list) d)
       (video_comments_of comments) []"

subsection \<open>Auxiliary functions for the statements\<close>

text \<open>
  \<open>is_ascii s\<close> is \<open>s.isascii()\<close>: every character of \<open>s\<close> is below 128.
\<close>

definition is_ascii :: "string \<Rightarrow> bool" where
  "is_ascii s = list_all (\<lambda>c. of_char c < (128 :: nat)) s"

text \<open>
  For a word and a list of comments: the like counts the loop over the liked subset appends
  for the word (one per occurrence of the word in a comment), and the comments that
  contain the word.
\<close>

definition occurrences :: "string \<Rightarrow> comment list \<Rightarrow> int list" where
  "occurrences w cs =
     concat (map (\<lambda>c. replicate (count_list (comment_words c) w) (likes c)) cs)"

definition containing :: "string \<Rightarrow> comment list \<Rightarrow> comment list" where
  "containing w cs = filter (\<lambda>c. w \<in> set (comment_words c)) cs"

section \<open>Reading the JSON log files\<close>

text \<open>
  A parsed JSON document, as \<open>json.load\<close> returns it (numbers are integers here). The
  shape of a log file is not checked before it is walked, so the walk is modelled on
  arbitrary documents: \<open>truthy\<close> is Python's truth value, \<open>hashable\<close> says whether a value
  can be a dict key or a set element (lists and dicts cannot: \<open>TypeError\<close>), and \<open>key_eq\<close> is
  the equality of keys (\<open>True == 1\<close> and \<open>False == 0\<close>). \<open>json_get kv k d\<close> is \<open>kv.get(k, d)\<close>
  on a JSON object.
\<close>

datatype json =
    JNull
  | JBool bool
  | JNum int
  | JStr string
  | JList "json list"
  | JDict "(string \<times> json) list"

fun truthy :: "json \<Rightarrow> bool" where
  "truthy JNull = False"
| "truthy (JBool b) = b"
| "truthy (JNum n) = (n \<noteq> 0)"
| "truthy (JStr s) = (s \<noteq> [])"
| "truthy (JList xs) = (xs \<noteq> [])"
| "truthy (JDict kv) = (kv \<noteq> [])"

fun hashable :: "json \<Rightarrow> bool" where
  "hashable (JList xs) = False"
| "hashable (JDict kv) = False"
| "hashable _ = True"

fun key_norm :: "json \<Rightarrow> json" where
  "key_norm (JBool b) = JNum (if b then 1 else 0)"
| "key_norm j = j"

definition key_eq :: "json \<Rightarrow> json \<Rightarrow> bool" where
  "key_eq a b = (key_norm a = key_norm b)"

definition json_get :: "(string \<times> json) list \<Rightarrow> string \<Rightarrow> json \<Rightarrow> json" where
  "json_get kv k dflt = (case map_of kv k of None \<Rightarrow> dflt | Some v \<Rightarrow> v)"

text \<open>
  Iterating over a value in a \<open>for\<close> loop: a list gives its elements, a string its
  characters, a dict its keys; anything else raises \<open>TypeError\<close> (\<open>None\<close> here).
\<close>

fun py_iter :: "json \<Rightarrow> json list option" where
  "py_iter (JList xs) = Some xs"
| "py_iter (JStr s) = Some (map (\<lambda>c. JStr [c]) s)"
| "py_iter (JDict kv) = Some (map (\<lambda>(k, v). JStr k) kv)"
| "py_iter _ = None"

text \<open>
  A dict keyed by JSON values: \<open>dd_lookup d k\<close> is \<open>d.get(k, [])\<close> and \<open>dd_put k v d\<close> is
  \<open>d[k] = v\<close>; on a \<open>defaultdict(list)\<close>, \<open>dd_extend k xs d\<close> is \<open>d[k].extend(xs)\<close>. A set is
  the list of its elements without repetition: \<open>set_add\<close> adds one element, \<open>set_update\<close>
  adds the elements of a list in order and stops, with the flag set, at the first
  unhashable one.
\<close>

fun dd_lookup :: "(json \<times> 'v list) list \<Rightarrow> json \<Rightarrow> 'v list" where
  "dd_lookup [] k = []"
| "dd_lookup ((k', v) # d) k = (if key_eq k' k then v else dd_lookup d k)"

fun dd_put :: "json \<Rightarrow> 'v \<Rightarrow> (json \<times> 'v) list \<Rightarrow> (json \<times> 'v) list" where
  "dd_put k v [] = [(k, v)]"
| "dd_put k v ((k', v') # d) = (if key_eq k' k then (k', v) # d else (k', v') # dd_put k v d)"

definition dd_extend :: "json \<Rightarrow> 'v list \<Rightarrow> (json \<times> 'v list) list \<Rightarrow> (json \<times> 'v list) list" where
  "dd_extend k xs d = dd_put k (dd_lookup d k @ xs) d"

definition set_add :: "json \<Rightarrow> json list \<Rightarrow> json list" where
  "set_add x s = (if list_ex (\<lambda>y. key_eq y x) s then s else s @ [x])"

fun set_update :: "json list \<Rightarrow> json list \<Rightarrow> json list \<times> bool" where
  "set_update s [] = (s, False)"
| "set_update s (x # xs) = (if hashable x then set_update (set_add x s) xs else (s, True))"

subsection \<open>organize\_comments\_static.py: parse\_json\_files\<close>

text \<open>
  The aggregated mapping is keyed by whatever \<open>target\<close> holds and lists whatever
  \<open>storedIds\<close> hold; in a well-formed file both are strings (\<open>JStr\<close>), the identifiers the
  later stages work on. The loop over the logs of one entry returns the mapping and whether an exception
  escaped it. An exception leaves the \<open>try\<close> block of the file: the rest of the file is
  skipped, what was stored before stays.
\<close>

fun parse_logs ::
  "json \<Rightarrow> json list \<Rightarrow> (json \<times> json list) list \<Rightarrow> (json \<times> json list) list \<times> bool" where
  "parse_logs sc [] d = (d, False)"
| "parse_logs sc (lg # logs) d =
     (case lg of
        JDict kv \<Rightarrow>
          (case json_get kv ''storedIds'' (JList []) of
             JList stored_ids \<Rightarrow>
               if hashable sc then parse_logs sc logs (dd_extend sc stored_ids d)
               else (d, True)
           | _ \<Rightarrow> parse_logs sc logs d)
      | _ \<Rightarrow> parse_logs sc logs d)"

record parse_state =
  shortcode_comments :: "(json \<times> json list) list"
  total_entries_p :: nat

fun parse_entries :: "json list \<Rightarrow> parse_state \<Rightarrow> parse_state" where
  "parse_entries [] st = st"
| "parse_entries (entry # rest) st =
     (case entry of
        JDict kv \<Rightarrow>
          (let sc = json_get kv ''target'' (JStr []) in
           if truthy sc then
             (case py_iter (json_get kv ''logs'' (JList [])) of
                None \<Rightarrow> st
              | Some logs \<Rightarrow>
                  (case parse_logs sc logs (shortcode_comments st) of
                     (d, raised) \<Rightarrow>
                       if raised then st\<lparr>shortcode_comments := d\<rparr>
                       else parse_entries rest
                              (st\<lparr>shortcode_comments := d,
                                  total_entries_p := total_entries_p st + 1\<rparr>)))
           else parse_entries rest st)
      | _ \<Rightarrow> parse_entries rest st)"

text \<open>
  One file: \<open>None\<close> is a file that \<open>json.load\<close> rejects. \<open>data.items()\<close> exists only for a
  dict; for any other document the \<open>AttributeError\<close> is caught and the file is skipped.
\<close>

fun parse_file :: "json option \<Rightarrow> parse_state \<Rightarrow> parse_state" where
  "parse_file (Some (JDict kv)) st = parse_entries (map snd kv) st"
| "parse_file _ st = st"

definition parse_json_files :: "json option list \<Rightarrow> parse_state" where
  "parse_json_files files =
     fold parse_file files \<lparr>shortcode_comments = [], total_entries_p = 0\<rparr>"

subsection \<open>analyze\_comments.py: analyze\_json\_file\<close>

record analysis =
  shortcode_to_comments :: "(json \<times> json list) list"
  all_comment_ids :: "json list"
  total_entries :: nat
  error_entries :: nat

text \<open>
  The loop over the logs of one entry, inside the \<open>try\<close> of that entry: the flag says an
  exception escaped (an unhashable \<open>target\<close> or comment identifier).
\<close>

fun analyze_logs :: "json \<Rightarrow> json list \<Rightarrow> analysis \<Rightarrow> analysis \<times> bool" where
  "analyze_logs sc [] a = (a, False)"
| "analyze_logs sc (lg # logs) a =
     (case lg of
        JDict kv \<Rightarrow>
          (case json_get kv ''storedIds'' (JList []) of
             JList stored_ids \<Rightarrow>
               if hashable sc then
                 (case set_update (dd_lookup (shortcode_to_comments a) sc) stored_ids of
                    (s, raised) \<Rightarrow>
                      if raised
                      then (a\<lparr>shortcode_to_comments := dd_put sc s (shortcode_to_comments a)\<rparr>, True)
                      else analyze_logs sc logs
                             (a\<lparr>shortcode_to_comments := dd_put sc s (shortcode_to_comments a),
                                all_comment_ids := all_comment_ids a @ stored_ids\<rparr>))
               else (a, True)
           | _ \<Rightarrow> analyze_logs sc logs a)
      | _ \<Rightarrow> analyze_logs sc logs a)"

definition analyze_entry :: "json \<Rightarrow> analysis \<Rightarrow> analysis" where
  "analyze_entry entry a0 =
     (let a = a0\<lparr>total_entries := total_entries a0 + 1\<rparr>
      in case entry of
           JDict kv \<Rightarrow>
             (let sc = json_get kv ''target'' (JStr []) in
              if truthy sc then
                (case json_get kv ''logs'' (JList []) of
                   JList logs \<Rightarrow>
                     (case analyze_logs sc logs a of
                        (a', raised) \<Rightarrow>
                          if raised then a'\<lparr>error_entries := error_entries a' + 1\<rparr> else a')
                 | _ \<Rightarrow> a)
              else a)
         | _ \<Rightarrow> a\<lparr>error_entries := error_entries a + 1\<rparr>)"

text \<open>
  The result is \<open>None\<close> where the function returns \<open>(None, None, 0)\<close>: the file is not JSON,
  or the document is neither a dict nor a list. The error count is only printed by the
  function; it is kept in the result here.
\<close>

fun analyze_json_file :: "json option \<Rightarrow> analysis option" where
  "analyze_json_file (Some (JDict kv)) =
     Some (fold analyze_entry (map snd kv)
       \<lparr>shortcode_to_comments = [], all_comment_ids = [], total_entries = 0, error_entries = 0\<rparr>)"
| "analyze_json_file (Some (JList xs)) =
     Some (fold analyze_entry xs
       \<lparr>shortcode_to_comments = [], all_comment_ids = [], total_entries = 0, error_entries = 0\<rparr>)"
| "analyze_json_file _ = None"

subsection \<open>Auxiliary functions for the statements\<close>

text \<open>
  A well-formed entry: a non-empty string \<open>target\<close> and a list \<open>logs\<close> of records that each
  hold a list \<open>storedIds\<close> of strings.
\<close>

definition wf_logs :: "string list list \<Rightarrow> json list" where
  "wf_logs idss = map (\<lambda>ids. JDict [(''storedIds'', JList (map JStr ids))]) idss"

definition wf_entry :: "string \<Rightarrow> string list list \<Rightarrow> json" where
  "wf_entry sc idss = JDict [(''target'', JStr sc), (''logs'', JList (wf_logs idss))]"



text \<open>
  What the logs of a well-formed entry do to the per-post sets and to the list of all
  comment identifiers of \<open>analyze_json_file\<close>.
\<close>

definition wf_effect ::
  "string \<Rightarrow> string list list \<Rightarrow> (json \<times> json list) list \<times> json list \<Rightarrow>
   (json \<times> json list) list \<times> json list" where
  "wf_effect sc idss =
     fold (\<lambda>ids (S, I).
            (dd_put (JStr sc) (fst (set_update (dd_lookup S (JStr sc)) (map JStr ids))) S,
             I @ map JStr ids)) idss"


section \<open>Example inputs\<close>

text \<open>
  A store whose object 0 is an aggregated mapping with one post, \<open>p\<close>, and the comment
  identifiers \<open>a, b, a, c, b\<close>; every other object is an empty dict.
\<close>

definition example_store :: "(string, string list) py_dict store" where
  "example_store = (\<lambda>r. [])(0 := [(''p'', [''a'', ''b'', ''a'', ''c'', ''b''])])"

text \<open>
  Three posts, the second without comments, and an organizer whose chunk size is 2.
\<close>

definition example_posts :: "(string, string list) py_dict" where
  "example_posts = [(''p'', [''a'', ''b'', ''c'', ''d'', ''e'']), (''q'', []), (''r'', [''f''])]"

definition example_organizer :: organizer where
  "example_organizer = (organizer_init ''in'' ''out'')\<lparr>chunk_size := 2\<rparr>"

text \<open>
  An index with four posts whose comment counts are 5, 20, 5 and 1; the comment identifiers
  of a post with \<open>n\<close> comments are the numerals \<open>0, ..., n - 1\<close>.
\<close>

definition example_entry :: "string \<Rightarrow> nat \<Rightarrow> post_entry" where
  "example_entry sc n = post_entry_of 1000 sc (map str_nat [0..<n])"

definition example_index :: organizer where
  "example_index = (organizer_init ''in'' ''out'')\<lparr>index_data :=
     \<lparr>posts = [(''p0'', example_entry ''p0'' 5), (''p1'', example_entry ''p1'' 20),
               (''p2'', example_entry ''p2'' 5), (''p3'', example_entry ''p3'' 1)],
      stats = \<lparr>total_posts = 4, total_comments_s = 31, total_chunks = 4\<rparr>\<rparr>\<rparr>"

text \<open>
  A comment record with every field present but the publication time, and the comment lists
  built from such records that the statements below are evaluated on.
\<close>

definition mk_comment :: "string \<Rightarrow> string \<Rightarrow> string \<Rightarrow> string \<Rightarrow> int \<Rightarrow> comment" where
  "mk_comment vid cid txt auth n =
     \<lparr>video_id = vid, comment_id = cid, comment_text = Some txt, author_display_name = Some auth,
      like_count = Some n, published_at = None, published_at_timestamp = None\<rparr>"

definition example_video :: "comment list" where
  "example_video =
     [mk_comment ''v'' ''c1'' ''Alpha beta'' ''Ann'' 60,
      mk_comment ''v'' ''c2'' ''alpha gamma'' ''Bob'' 50,
      mk_comment ''v'' ''c3'' ''delta'' ''Cy'' 4,
      mk_comment ''v'' ''c4'' ''delta'' ''Di'' 3,
      mk_comment ''v'' ''c5'' ''delta'' ''Ed'' 2,
      mk_comment ''v'' ''c6'' ''delta'' ''Flo'' 1,
      mk_comment ''v'' ''c7'' ''omega'' ''Gus'' 0]"

definition example_comments :: "comment list" where
  "example_comments =
     [mk_comment ''v'' ''c1'' ''Hello  World'' ''Ann'' 1,
      mk_comment ''w'' ''c2'' ''second'' ''Bob'' 0,
      mk_comment ''v'' ''c1'' ''Bye NOW'' ''Cy'' 2]"

text \<open>
  A video with ten liked comments. The most liked has 20 likes and two have 10, of which
  the earlier one comes into the liked subset; the two comments of the liked subset share
  the words \<open>great\<close> and \<open>song\<close>.
\<close>

definition example_liked_video :: "comment list" where
  "example_liked_video =
     [mk_comment ''v'' ''d1'' ''meh'' ''A'' 1,
      mk_comment ''v'' ''d2'' ''Great song video'' ''B'' 10,
      mk_comment ''v'' ''d3'' ''meh'' ''C'' 1,
      mk_comment ''v'' ''d4'' ''great song'' ''D'' 20,
      mk_comment ''v'' ''d5'' ''great day'' ''E'' 10,
      mk_comment ''v'' ''d6'' ''meh'' ''F'' 1,
      mk_comment ''v'' ''d7'' ''meh'' ''G'' 1,
      mk_comment ''v'' ''d8'' ''meh'' ''H'' 1,
      mk_comment ''v'' ''d9'' ''meh'' ''I'' 1,
      mk_comment ''v'' ''d10'' ''meh'' ''J'' 1]"

definition example_repeated_word :: "comment list" where
  "example_repeated_word = [mk_comment ''v'' ''e1'' ''wow wow'' ''A'' 5]"

text \<open>
  A file with a well-formed entry and an entry whose \<open>logs\<close> is the string \<open>oops\<close>.
\<close>

definition example_file :: json where
  "example_file =
     JDict [(''u1'', wf_entry ''ABC123'' [[''c1'', ''c2''], [''c2'', ''c3'']]),
            (''u2'', JDict [(''target'', JStr ''XYZ789''), (''logs'', JStr ''oops'')])]"




section \<open>Properties of deduplication\<close>

lemma unique_comments_example:
  "unique_comments [''a'', ''b'', ''a'', ''c'', ''b''] = [''a'', ''b'', ''c'']"
  by (simp add: unique_comments_def dict_fromkeys_def list_of_dict_def)

lemma keys_fold_update:
  "map fst (fold (\<lambda>x d. AList.update x () d) xs d) = fold (\<lambda>x ks. ins_key ks x) xs (map fst d)"
  by (induction xs arbitrary: d) (simp_all add: update_keys ins_key_def)

lemma fold_ins_key_append:
  "fold (\<lambda>x ks. ins_key ks x) xs ks = ks @ filter (\<lambda>x. x \<notin> set ks) (fold (\<lambda>x ks. ins_key ks x) xs [])"
proof (induction xs arbitrary: ks rule: rev_induct)
  case Nil
  then show ?case by simp
next
  case (snoc y xs)
  show ?case
    using snoc.IH [of ks] by (auto simp: ins_key_def)
qed

lemma unique_comments_Nil: "unique_comments [] = []"
  by (simp add: unique_comments_def dict_fromkeys_def list_of_dict_def)

lemma unique_comments_fold: "unique_comments xs = fold (\<lambda>x ks. ins_key ks x) xs []"
  by (simp add: unique_comments_def dict_fromkeys_def list_of_dict_def keys_fold_update)

lemma unique_comments_Cons:
  "unique_comments (x # xs) = x # filter (\<lambda>y. y \<noteq> x) (unique_comments xs)"
proof -
  have "unique_comments (x # xs) = fold (\<lambda>x ks. ins_key ks x) xs [x]"
    by (simp add: unique_comments_fold ins_key_def)
  also have "\<dots> = [x] @ filter (\<lambda>y. y \<notin> set [x]) (fold (\<lambda>x ks. ins_key ks x) xs [])"
    by (rule fold_ins_key_append)
  finally show ?thesis by (simp add: unique_comments_fold)
qed

lemma set_unique_comments: "set (unique_comments xs) = set xs"
  by (induction xs) (auto simp: unique_comments_Nil unique_comments_Cons)

lemma distinct_unique_comments: "distinct (unique_comments xs)"
  by (induction xs) (auto simp: unique_comments_Nil unique_comments_Cons)

lemma length_unique_comments: "length (unique_comments xs) \<le> length xs"
proof (induction xs)
  case Nil
  then show ?case by (simp add: unique_comments_Nil)
next
  case (Cons x xs)
  have "length (filter (\<lambda>y. y \<noteq> x) (unique_comments xs)) \<le> length (unique_comments xs)"
    by (rule length_filter_le)
  with Cons have "length (filter (\<lambda>y. y \<noteq> x) (unique_comments xs)) \<le> length xs"
    by (rule_tac order_trans)
  then show ?case by (simp add: unique_comments_Cons)
qed

lemma first_index_Cons:
  "first_index (x # xs) y = (if y = x then 0 else Suc (first_index xs y))"
  by (simp add: first_index_def)

lemma first_occurrence_order: "sorted_wrt (<) (map (first_index xs) (unique_comments xs))"
proof (induction xs)
  case Nil
  then show ?case by (simp add: unique_comments_Nil)
next
  case (Cons x xs)
  let ?rest = "filter (\<lambda>y. y \<noteq> x) (unique_comments xs)"
  have "sorted_wrt (<) (map (first_index xs) ?rest)"
    using Cons by (simp add: sorted_wrt_map sorted_wrt_filter)
  then have s: "sorted_wrt (<) (map (\<lambda>y. Suc (first_index xs y)) ?rest)"
    by (simp add: sorted_wrt_map)
  have eq: "map (first_index (x # xs)) ?rest = map (\<lambda>y. Suc (first_index xs y)) ?rest"
    by (rule map_cong) (auto simp: first_index_Cons)
  have tl: "sorted_wrt (<) (map (first_index (x # xs)) ?rest)"
    unfolding eq by (rule s)
  have hd: "\<forall>n \<in> set (map (first_index (x # xs)) ?rest). first_index (x # xs) x < n"
    by (auto simp: first_index_Cons)
  show ?case
    unfolding unique_comments_Cons list.map sorted_wrt.simps using tl hd by blast
qed

lemma unique_comments_idem: "distinct xs \<Longrightarrow> unique_comments xs = xs"
  by (induction xs) (auto simp: unique_comments_Nil unique_comments_Cons filter_id_conv)

lemma update_append_fresh:
  "k \<notin> fst ` set as \<Longrightarrow> AList.update k v (as @ bs) = as @ AList.update k v bs"
  by (induction as) auto

lemma deduplicate_fold_aux:
  "distinct (map fst (xs @ ys)) \<Longrightarrow>
   fold (\<lambda>(k, v) d. AList.update k (f v) d) ys (map (\<lambda>(k, v). (k, f v)) xs @ ys)
     = map (\<lambda>(k, v). (k, f v)) (xs @ ys)"
proof (induction ys arbitrary: xs)
  case Nil
  then show ?case by simp
next
  case (Cons y ys)
  obtain k v where y: "y = (k, v)" by (cases y)
  have fresh: "k \<notin> fst ` set (map (\<lambda>(k, v). (k, f v)) xs)"
    using Cons.prems by (force simp: y)
  have d: "distinct (map fst ((xs @ [y]) @ ys))" using Cons.prems by simp
  have "fold (\<lambda>(k, v) d. AList.update k (f v) d) (y # ys) (map (\<lambda>(k, v). (k, f v)) xs @ y # ys)
      = fold (\<lambda>(k, v) d. AList.update k (f v) d) ys (map (\<lambda>(k, v). (k, f v)) (xs @ [y]) @ ys)"
    by (simp add: y update_append_fresh [OF fresh])
  also have "\<dots> = map (\<lambda>(k, v). (k, f v)) ((xs @ [y]) @ ys)"
    by (rule Cons.IH [OF d])
  finally show ?case by simp
qed

lemma deduplicate_loop_map:
  "distinct (map fst d) \<Longrightarrow> deduplicate_loop d = map (\<lambda>(k, v). (k, unique_comments v)) d"
  using deduplicate_fold_aux [of "[]" d unique_comments] by (simp add: deduplicate_loop_def)

text \<open>
  Claim C1. For every post of the aggregated mapping, deduplication stores under that post
  the sequence \<open>unique_comments comments\<close>: it has the same values as the input, each once,
  and its elements stand in the order of their first appearance in the input (their first
  positions in the input increase strictly along the output). The output is never longer
  than the input, and \<open>a, b, a, c, b\<close> gives \<open>a, b, c\<close>.
\<close>

theorem deduplicate_first_occurrence_order:
  assumes "distinct (map fst (h r))" and "(sc, comments) \<in> set (h r)"
  shows "map_of (snd (deduplicate_comments r h) (fst (deduplicate_comments r h))) sc
           = Some (unique_comments comments)
         \<and> set (unique_comments comments) = set comments
         \<and> distinct (unique_comments comments)
         \<and> sorted_wrt (<) (map (first_index comments) (unique_comments comments))
         \<and> length (unique_comments comments) \<le> length comments
         \<and> unique_comments [''a'', ''b'', ''a'', ''c'', ''b''] = [''a'', ''b'', ''c'']"
proof -
  have "map_of (map (\<lambda>(k, v). (k, unique_comments v)) (h r)) sc = Some (unique_comments comments)"
    using assms by (simp add: map_of_map map_of_eq_Some_iff)
  then have "map_of (snd (deduplicate_comments r h) (fst (deduplicate_comments r h))) sc
      = Some (unique_comments comments)"
    using assms(1) by (simp add: deduplicate_comments_def deduplicate_loop_map)
  then show ?thesis
    by (simp only: set_unique_comments distinct_unique_comments first_occurrence_order
        length_unique_comments unique_comments_example simp_thms)
qed

theorem deduplicate_first_occurrence_order_witness:
  "map_of (snd (deduplicate_comments 0 example_store) (fst (deduplicate_comments 0 example_store)))
     ''p'' = Some [''a'', ''b'', ''c'']
   \<and> map (first_index [''a'', ''b'', ''a'', ''c'', ''b'']) [''a'', ''b'', ''c''] = [0, 1, 3]"
  using deduplicate_first_occurrence_order
    [of example_store 0 "''p''" "[''a'', ''b'', ''a'', ''c'', ''b'']"]
  by (simp add: example_store_def first_index_def)

text \<open>
  Claim C9, as stated: deduplication leaves the mapping it was given unchanged and returns
  a different object. On the example store the object passed in is changed and the result
  is that same object.
\<close>

theorem deduplicate_not_pure_counterexample:
  "snd (deduplicate_comments 0 example_store) 0 \<noteq> example_store 0
   \<and> fst (deduplicate_comments 0 example_store) = 0"
  by (simp add: deduplicate_comments_def deduplicate_loop_def example_store_def
      unique_comments_example)

text \<open>
  Claim C9, amended. Deduplication works in place: it returns the reference it was given,
  the object behind it now holds, for each post in the same order, the deduplicated
  sequence of that post, and no other object of the store is changed.
\<close>

theorem deduplicate_in_place:
  assumes "distinct (map fst (h r))"
  shows "fst (deduplicate_comments r h) = r
         \<and> snd (deduplicate_comments r h) r = map (\<lambda>(sc, comments). (sc, unique_comments comments)) (h r)
         \<and> (\<forall>r'. r' \<noteq> r \<longrightarrow> snd (deduplicate_comments r h) r' = h r')"
  using assms by (simp add: deduplicate_comments_def deduplicate_loop_map)

theorem deduplicate_in_place_witness:
  "fst (deduplicate_comments 0 example_store) = 0
   \<and> snd (deduplicate_comments 0 example_store) 0 = [(''p'', [''a'', ''b'', ''c''])]
   \<and> example_store 0 = [(''p'', [''a'', ''b'', ''a'', ''c'', ''b''])]
   \<and> snd (deduplicate_comments 0 example_store) 1 = example_store 1"
  using deduplicate_in_place [of example_store 0]
  by (simp add: example_store_def unique_comments_example)

section \<open>Properties of chunking\<close>

lemma ceil_step:
  fixes d step :: nat
  assumes "0 < step" "0 < d"
  shows "(d + step - 1) div step = Suc ((d - step + step - 1) div step)"
proof (cases "step \<le> d")
  case True
  have "d + step - 1 = (d - 1) + step" using assms by simp
  then have "(d + step - 1) div step = ((d - 1) + step) div step" by (rule arg_cong)
  also have "\<dots> = Suc ((d - 1) div step)"
    using assms div_add_self2 [of step "d - 1"] by linarith
  finally have "(d + step - 1) div step = Suc ((d - 1) div step)" .
  moreover have "d - step + step - 1 = d - 1" using True by simp
  ultimately show ?thesis by simp
next
  case False
  then have a: "(d - step + step - 1) div step = 0" using assms by simp
  have "step * 1 \<le> d + step - 1" using assms by simp
  moreover have "d + step - 1 < step * Suc 1" using False assms by simp
  ultimately have "(d + step - 1) div step = 1" by (rule div_nat_eqI)
  with a show ?thesis by simp
qed

lemma range_list_Nil: "stop \<le> start \<Longrightarrow> range_list start stop step = []"
  by (subst range_list.simps) simp

lemma range_list_Cons:
  "0 < step \<Longrightarrow> start < stop \<Longrightarrow>
   range_list start stop step = start # range_list (start + step) stop step"
  by (subst range_list.simps) simp

lemma range_list_closed:
  "0 < step \<Longrightarrow> range_list start stop step
     = map (\<lambda>k. start + k * step) [0..<(stop - start + step - 1) div step]"
proof (induction start stop step rule: range_list.induct)
  case (1 start stop step)
  show ?case
  proof (cases "stop \<le> start")
    case True
    then show ?thesis using "1.prems" by (simp add: range_list_Nil)
  next
    case False
    let ?m = "(stop - (start + step) + step - 1) div step"
    have ih: "range_list (start + step) stop step = map (\<lambda>k. start + step + k * step) [0..<?m]"
      using "1.IH" "1.prems" False by simp
    have "(stop - start + step - 1) div step = Suc ((stop - start - step + step - 1) div step)"
      using "1.prems" False by (intro ceil_step) simp_all
    then have cnt: "(stop - start + step - 1) div step = Suc ?m"
      by simp
    have "range_list start stop step = start # range_list (start + step) stop step"
      using False "1.prems" by (simp add: range_list_Cons)
    also have "\<dots> = start # map (\<lambda>k. start + step + k * step) [0..<?m]"
      by (simp only: ih)
    also have "\<dots> = map (\<lambda>k. start + k * step) [0..<Suc ?m]"
      by (simp add: upt_conv_Cons map_Suc_upt [symmetric] del: upt_Suc)
    finally show ?thesis by (simp only: cnt)
  qed
qed

lemma ceil_div_nat:
  assumes "0 < c"
  shows "\<lceil>real n / real c\<rceil> = int ((n + c - 1) div c)"
proof (rule ceiling_unique)
  let ?q = "(n + c - 1) div c"
  have q1: "?q * c \<le> n + c - 1" by simp
  have q2: "n + c - 1 < c + ?q * c" using assms by (rule dividend_less_div_times)
  have "?q * c < n + c" using q1 assms by linarith
  then have "real (?q * c) < real (n + c)" by (simp only: of_nat_less_iff)
  then have "(real ?q - 1) * real c < real n" by (simp add: algebra_simps)
  then show "of_int (int ?q) - 1 < real n / real c"
    using assms by (simp add: pos_less_divide_eq)
  have "n \<le> ?q * c" using q2 assms by linarith
  then have "real n \<le> real (?q * c)" by (simp only: of_nat_le_iff)
  then show "real n / real c \<le> of_int (int ?q)"
    using assms by (simp add: pos_divide_le_eq)
qed

lemma chunk_step_eq:
  "chunk_step csize pd sc comments i (fs, ch, tc)
     = (fs @ [write_at csize pd sc comments i], ch @ [desc_at csize sc comments i], tc + 1)"
  by (simp add: chunk_step_def write_at_def desc_at_def chunk_at_def Let_def)

lemma fold_chunk_step:
  "fold (chunk_step csize pd sc comments) is (fs, ch, tc)
     = (fs @ map (write_at csize pd sc comments) is,
        ch @ map (desc_at csize sc comments) is, tc + length is)"
  by (induction "is" arbitrary: fs ch tc) (simp_all add: chunk_step_eq)

lemma process_post_ok:
  "0 < chunk_size (self_o st) \<Longrightarrow> process_post sc comments st = Inr (post_done sc comments st)"
  by (simp add: process_post_def py_range_def fold_chunk_step post_done_def post_events_def
      post_entry_of_def post_dir_of_def Let_def)

lemma chunk_size_post_done: "chunk_size (self_o (post_done sc comments st)) = chunk_size (self_o st)"
  by (simp add: post_done_def)

lemma output_dir_post_done: "output_dir (self_o (post_done sc comments st)) = output_dir (self_o st)"
  by (simp add: post_done_def)

lemma chunk_size_post_pass: "chunk_size (self_o (post_pass p st)) = chunk_size (self_o st)"
  by (cases p) (simp add: post_pass_def chunk_size_post_done)

lemma posts_loop_ok:
  "0 < chunk_size (self_o st) \<Longrightarrow> posts_loop d st = Inr (fold post_pass d st)"
proof (induction d arbitrary: st)
  case Nil
  then show ?case by simp
next
  case (Cons p d)
  obtain sc comments where p: "p = (sc, comments)" by (cases p)
  have "0 < chunk_size (self_o (post_pass p st))"
    using Cons.prems by (simp add: chunk_size_post_pass)
  from Cons.IH [OF this] have ih: "posts_loop d (post_pass p st) = Inr (fold post_pass d (post_pass p st))" .
  show ?case
  proof (cases "comments = []")
    case True
    then show ?thesis using ih by (simp add: p post_pass_def)
  next
    case False
    then show ?thesis using ih Cons.prems by (simp add: p post_pass_def process_post_ok)
  qed
qed

lemma output_dir_post_pass: "output_dir (self_o (post_pass p st)) = output_dir (self_o st)"
  by (cases p) (simp add: post_pass_def output_dir_post_done)

lemma chunk_size_fold_post_pass:
  "chunk_size (self_o (fold post_pass d st)) = chunk_size (self_o st)"
  by (induction d arbitrary: st) (simp_all add: chunk_size_post_pass)

lemma output_dir_fold_post_pass:
  "output_dir (self_o (fold post_pass d st)) = output_dir (self_o st)"
  by (induction d arbitrary: st) (simp_all add: output_dir_post_pass)

lemma total_comments_fold_post_pass:
  "total_comments_v (fold post_pass d st)
     = total_comments_v st + sum_list (map (\<lambda>(sc, comments). length comments) d)"
proof (induction d arbitrary: st)
  case Nil
  then show ?case by simp
next
  case (Cons p d)
  obtain sc comments where p: "p = (sc, comments)" by (cases p)
  have "total_comments_v (post_pass p st) = total_comments_v st + length comments"
    by (simp add: p post_pass_def post_done_def)
  then show ?case by (simp add: Cons.IH p)
qed

lemma range_list_empty: "range_list 0 0 csize = []"
  by (simp add: range_list_Nil)

lemma total_chunks_fold_post_pass:
  "total_chunks_v (fold post_pass d st)
     = total_chunks_v st
       + sum_list (map (\<lambda>(sc, comments). length (range_list 0 (length comments) (chunk_size (self_o st)))) d)"
proof (induction d arbitrary: st)
  case Nil
  then show ?case by simp
next
  case (Cons p d)
  obtain sc comments where p: "p = (sc, comments)" by (cases p)
  have "total_chunks_v (post_pass p st)
      = total_chunks_v st + length (range_list 0 (length comments) (chunk_size (self_o st)))"
    by (cases "comments = []") (simp_all add: p post_pass_def post_done_def range_list_empty)
  then show ?case by (simp add: Cons.IH p chunk_size_post_pass)
qed

lemma fs_log_fold_post_pass:
  "output_dir (self_o st) = odir \<Longrightarrow> chunk_size (self_o st) = csize \<Longrightarrow>
   fs_log (fold post_pass d st)
     = fs_log st @ concat (map (\<lambda>(sc, comments). if comments = [] then []
          else post_events odir csize sc comments) d)"
proof (induction d arbitrary: st)
  case Nil
  then show ?case by simp
next
  case (Cons p d)
  obtain sc comments where p: "p = (sc, comments)" by (cases p)
  have "fs_log (post_pass p st) = fs_log st @ (if comments = [] then []
      else post_events odir csize sc comments)"
    using Cons.prems by (simp add: p post_pass_def post_done_def)
  moreover have "output_dir (self_o (post_pass p st)) = odir"
    "chunk_size (self_o (post_pass p st)) = csize"
    using Cons.prems by (simp_all add: chunk_size_post_pass output_dir_post_pass)
  ultimately show ?case using Cons.IH [of "post_pass p st"] by (simp add: p)
qed

lemma posts_fold_post_pass:
  "chunk_size (self_o st) = csize \<Longrightarrow>
   posts (index_data (self_o (fold post_pass d st)))
     = fold (\<lambda>(sc, comments) ps. if comments = [] then ps
          else AList.update sc (post_entry_of csize sc comments) ps) d
         (posts (index_data (self_o st)))"
proof (induction d arbitrary: st)
  case Nil
  then show ?case by simp
next
  case (Cons p d)
  obtain sc comments where p: "p = (sc, comments)" by (cases p)
  have "posts (index_data (self_o (post_pass p st)))
      = (if comments = [] then posts (index_data (self_o st))
         else AList.update sc (post_entry_of csize sc comments)
                (posts (index_data (self_o st))))"
    using Cons.prems by (simp add: p post_pass_def post_done_def)
  moreover have "chunk_size (self_o (post_pass p st)) = csize"
    using Cons.prems by (simp add: chunk_size_post_pass)
  ultimately show ?case using Cons.IH [of "post_pass p st"] by (simp add: p)
qed

lemma fold_update_fresh:
  "distinct (map fst d) \<Longrightarrow> fst ` set d \<inter> fst ` set ps = {} \<Longrightarrow>
   fold (\<lambda>(k, v) ps. if P v then ps else AList.update k (g k v) ps) d ps
     = ps @ map (\<lambda>(k, v). (k, g k v)) (filter (\<lambda>(k, v). \<not> P v) d)"
proof (induction d arbitrary: ps)
  case Nil
  then show ?case by simp
next
  case (Cons p d)
  obtain k v where p: "p = (k, v)" by (cases p)
  have k: "k \<notin> fst ` set ps" "k \<notin> fst ` set d" using Cons.prems by (auto simp: p)
  show ?case
  proof (cases "P v")
    case True
    have "fst ` set d \<inter> fst ` set ps = {}" using Cons.prems by auto
    then show ?thesis using Cons.IH [of ps] Cons.prems True by (simp add: p)
  next
    case False
    have upd: "AList.update k (g k v) ps = ps @ [(k, g k v)]"
      using k(1) by (induction ps) auto
    have "fst ` set d \<inter> fst ` set (ps @ [(k, g k v)]) = {}"
      using Cons.prems k by auto
    then show ?thesis using Cons.IH [of "ps @ [(k, g k v)]"] Cons.prems False
      by (simp add: p upd)
  qed
qed

lemma create_chunked_files_ok:
  assumes "0 < chunk_size self"
  shows "create_chunked_files self fs d =
     Inr ((self_o (fold post_pass d (ccf_start self fs)))\<lparr>index_data :=
            (index_data (self_o (fold post_pass d (ccf_start self fs))))\<lparr>stats :=
              \<lparr>total_posts = length (posts (index_data (self_o (fold post_pass d (ccf_start self fs))))),
               total_comments_s = total_comments_v (fold post_pass d (ccf_start self fs)),
               total_chunks = total_chunks_v (fold post_pass d (ccf_start self fs))\<rparr>\<rparr>\<rparr>,
          fs_log (fold post_pass d (ccf_start self fs)))"
proof -
  have "0 < chunk_size (self_o (ccf_start self fs))" using assms by (simp add: ccf_start_def)
  then have "posts_loop d (ccf_start self fs) = Inr (fold post_pass d (ccf_start self fs))"
    by (rule posts_loop_ok)
  then show ?thesis by (simp add: create_chunked_files_def ccf_start_def)
qed

lemma chunks_written_append:
  "chunks_written (a @ b) sc = chunks_written a sc @ chunks_written b sc"
  by (simp add: chunks_written_def)

lemma chunks_written_post_events:
  "chunks_written (post_events odir csize sc' comments) sc
     = (if sc' = sc then map (chunk_at csize sc comments) (range_list 0 (length comments) csize) else [])"
proof -
  have "concat (map chunk_of_event (map (write_at csize pd sc' comments) is))
      = map (chunk_at csize sc' comments) is" for pd "is"
    by (induction "is") (simp_all add: write_at_def)
  then show ?thesis
    by (simp add: chunks_written_def post_events_def chunk_at_def filter_map comp_def)
qed

lemma concat_map_select:
  "distinct (map fst d) \<Longrightarrow> (k, v) \<in> set d \<Longrightarrow>
   concat (map (\<lambda>(k', v'). if k' = k then g v' else []) d) = g v"
proof (induction d)
  case Nil
  then show ?case by simp
next
  case (Cons p d)
  obtain k' v' where p: "p = (k', v')" by (cases p)
  show ?case
  proof (cases "k' = k")
    case True
    then have v: "v' = v" using Cons.prems by (force simp: p)
    have "k \<notin> fst ` set d" using Cons.prems True by (simp add: p)
    then have "concat (map (\<lambda>(k', v'). if k' = k then g v' else []) d) = []"
      by (induction d) auto
    then show ?thesis by (simp add: p True v)
  next
    case False
    then have "(k, v) \<in> set d" using Cons.prems by (auto simp: p)
    then show ?thesis using Cons.IH Cons.prems False by (simp add: p)
  qed
qed

lemma chunks_written_concat:
  "chunks_written (concat (map (\<lambda>(sc', comments). if comments = [] then []
        else post_events odir csize sc' comments) d)) sc
   = concat (map (\<lambda>(sc', comments). if sc' = sc
        then map (chunk_at csize sc comments) (range_list 0 (length comments) csize) else []) d)"
proof (induction d)
  case Nil
  then show ?case by (simp add: chunks_written_def)
next
  case (Cons p d)
  obtain sc' comments where p: "p = (sc', comments)" by (cases p)
  have "chunks_written (if comments = [] then [] else post_events odir csize sc' comments) sc
      = (if sc' = sc then map (chunk_at csize sc comments) (range_list 0 (length comments) csize) else [])"
  proof (cases "comments = []")
    case True
    then show ?thesis by (simp add: chunks_written_def range_list_empty)
  next
    case False
    then show ?thesis by (simp add: chunks_written_post_events)
  qed
  then show ?case using Cons.IH by (simp add: p chunks_written_append)
qed

lemma chunks_written_result:
  assumes "0 < chunk_size self" "distinct (map fst d)" "(sc, comments) \<in> set d"
  shows "chunks_written (fs_log (fold post_pass d (ccf_start self []))) sc
     = map (chunk_at (chunk_size self) sc comments) (range_list 0 (length comments) (chunk_size self))"
proof -
  have "fs_log (fold post_pass d (ccf_start self []))
      = concat (map (\<lambda>(sc, comments). if comments = [] then []
          else post_events (output_dir self) (chunk_size self) sc comments) d)"
    using fs_log_fold_post_pass [of "ccf_start self []" "output_dir self" "chunk_size self" d]
    by (simp add: ccf_start_def)
  then show ?thesis
    using concat_map_select [OF assms(2,3),
        of "\<lambda>comments. map (chunk_at (chunk_size self) sc comments) (range_list 0 (length comments) (chunk_size self))"]
    by (simp add: chunks_written_concat)
qed

lemma concat_slices:
  "concat (map (\<lambda>k. take csize (drop (k * csize) xs)) [0..<m]) = take (m * csize) xs"
proof (induction m)
  case 0
  then show ?case by simp
next
  case (Suc m)
  have "take (m * csize) xs @ take csize (drop (m * csize) xs) = take (m * csize + csize) xs"
    by (simp add: take_add)
  then show ?case using Suc by (simp add: add.commute)
qed

lemma chunk_count_bounds:
  fixes n csize :: nat
  assumes "0 < csize"
  shows "n \<le> ((n + csize - 1) div csize) * csize"
    and "0 < n \<Longrightarrow> ((n + csize - 1) div csize - 1) * csize < n"
proof -
  let ?q = "(n + csize - 1) div csize"
  have q1: "?q * csize \<le> n + csize - 1" by simp
  have q2: "n + csize - 1 < csize + ?q * csize" using assms by (rule dividend_less_div_times)
  show "n \<le> ?q * csize" using q2 assms by linarith
  show "(?q - 1) * csize < n" if "0 < n"
  proof -
    have "(?q - 1) * csize = ?q * csize - csize" by (simp add: diff_mult_distrib)
    then show ?thesis using q1 that assms by linarith
  qed
qed

lemma post_chunks_closed:
  "0 < csize \<Longrightarrow>
   map (chunk_at csize sc comments) (range_list 0 (length comments) csize)
     = map (\<lambda>k. chunk_at csize sc comments (k * csize))
         [0..<(length comments + csize - 1) div csize]"
  by (simp add: range_list_closed comp_def)

lemma post_chunks_concat:
  assumes "0 < csize"
  shows "concat (map comment_ids (map (chunk_at csize sc comments)
           (range_list 0 (length comments) csize))) = comments"
proof -
  have "concat (map comment_ids (map (chunk_at csize sc comments)
           (range_list 0 (length comments) csize)))
      = concat (map (\<lambda>k. take csize (drop (k * csize) comments))
           [0..<(length comments + csize - 1) div csize])"
    using assms by (simp add: post_chunks_closed comp_def chunk_at_def)
  also have "\<dots> = take (((length comments + csize - 1) div csize) * csize) comments"
    by (rule concat_slices)
  also have "\<dots> = comments"
    using chunk_count_bounds(1) [OF assms, of "length comments"] by simp
  finally show ?thesis .
qed

lemma post_chunks_index:
  assumes "0 < csize"
  shows "map chunk_index (map (chunk_at csize sc comments)
           (range_list 0 (length comments) csize))
         = [0..<(length comments + csize - 1) div csize]"
proof -
  have "map chunk_index (map (\<lambda>k. chunk_at csize sc comments (k * csize)) [0..<m]) = [0..<m]" for m
    using assms by (simp add: chunk_at_def comp_def map_idI)
  then show ?thesis using assms by (simp only: post_chunks_closed)
qed

lemma post_chunks_full:
  assumes "0 < csize" and "i + 1 < (length comments + csize - 1) div csize"
  shows "length (comment_ids (map (chunk_at csize sc comments)
           (range_list 0 (length comments) csize) ! i)) = csize"
proof -
  let ?q = "(length comments + csize - 1) div csize"
  have "0 < length comments" using assms by (cases "length comments = 0") simp_all
  then have low: "(?q - 1) * csize < length comments"
    using chunk_count_bounds(2) [OF assms(1)] by simp
  have "Suc i \<le> ?q - 1" using assms(2) by simp
  then have "Suc i * csize \<le> (?q - 1) * csize" by (rule mult_le_mono1)
  then have "i * csize + csize \<le> length comments" using low by simp
  moreover have "i < ?q" using assms(2) by simp
  ultimately show ?thesis using assms(1)
    by (simp add: post_chunks_closed chunk_at_def)
qed

lemma post_chunks_each:
  assumes "0 < csize"
    and "c \<in> set (map (chunk_at csize sc comments) (range_list 0 (length comments) csize))"
  shows "shortcode c = sc \<and> count_c c = length (comment_ids c)
         \<and> 1 \<le> count_c c \<and> count_c c \<le> csize"
proof -
  let ?q = "(length comments + csize - 1) div csize"
  from assms obtain k where k: "k < ?q" "c = chunk_at csize sc comments (k * csize)"
    by (auto simp: post_chunks_closed)
  have "0 < length comments" using k(1) assms(1) by (cases "length comments = 0") simp_all
  then have low: "(?q - 1) * csize < length comments"
    using chunk_count_bounds(2) [OF assms(1)] by simp
  have "k \<le> ?q - 1" using k(1) by simp
  then have "k * csize \<le> (?q - 1) * csize" by (rule mult_le_mono1)
  then have "k * csize < length comments" using low by (rule le_less_trans)
  then show ?thesis using assms(1) by (simp add: k(2) chunk_at_def)
qed

lemma posts_result:
  assumes "distinct (map fst d)" "posts (index_data self) = []"
  shows "posts (index_data (self_o (fold post_pass d (ccf_start self fs))))
     = map (\<lambda>(sc, comments). (sc, post_entry_of (chunk_size self) sc comments))
         (filter (\<lambda>(sc, comments). comments \<noteq> []) d)"
proof -
  have "posts (index_data (self_o (fold post_pass d (ccf_start self fs))))
      = fold (\<lambda>(sc, comments) ps. if comments = [] then ps
          else AList.update sc (post_entry_of (chunk_size self) sc comments) ps) d []"
    using posts_fold_post_pass [of "ccf_start self fs" "chunk_size self" d] assms(2)
    by (simp add: ccf_start_def)
  also have "\<dots> = [] @ map (\<lambda>(sc, comments). (sc, post_entry_of (chunk_size self) sc comments))
         (filter (\<lambda>(sc, comments). \<not> comments = []) d)"
    using assms(1)
    by (intro fold_update_fresh [where P = "\<lambda>v. v = []" and g = "post_entry_of (chunk_size self)"]) simp_all
  finally show ?thesis by simp
qed

lemma post_entry_counts:
  assumes "0 < csize"
  shows "sum_list (map count_d (chunks (post_entry_of csize sc comments))) = length comments"
proof -
  have "map count_d (map (desc_at csize sc comments) is)
      = map length (map comment_ids (map (chunk_at csize sc comments) is))" for "is"
    by (simp add: desc_at_def chunk_at_def comp_def)
  then have "sum_list (map count_d (chunks (post_entry_of csize sc comments)))
      = length (concat (map comment_ids (map (chunk_at csize sc comments)
           (range_list 0 (length comments) csize))))"
    by (simp only: post_entry_of_def post_entry.simps length_concat)
  then show ?thesis using assms by (simp only: post_chunks_concat)
qed

lemma post_entry_nonempty:
  assumes "0 < csize" "comments \<noteq> []"
  shows "1 \<le> chunk_count (post_entry_of csize sc comments)"
proof -
  have "length comments \<le> ((length comments + csize - 1) div csize) * csize"
    using assms(1) by (rule chunk_count_bounds(1))
  moreover have "0 < length comments" using assms(2) by simp
  ultimately have "0 < (length comments + csize - 1) div csize"
    by (cases "(length comments + csize - 1) div csize = 0") simp_all
  then show ?thesis using assms(1) by (simp add: post_entry_of_def range_list_closed)
qed

lemma sum_list_filter_zero:
  fixes f :: "'a \<Rightarrow> nat"
  assumes "\<And>x. x \<in> set xs \<Longrightarrow> \<not> P x \<Longrightarrow> f x = 0"
  shows "sum_list (map f (filter P xs)) = sum_list (map f xs)"
  using assms by (induction xs) auto

text \<open>
  Claim C2. Let the chunking step run, with a positive chunk size \<open>C\<close>, on a mapping with
  distinct post identifiers, and let a post have \<open>N\<close> comment identifiers. The step
  returns, and the chunk files it wrote for the post are \<open>ceil(N/C)\<close> many, carry the chunk
  indices \<open>0, 1, 2, ...\<close> in the order written, hold exactly \<open>C\<close> identifiers each except
  possibly the last, hold between 1 and \<open>C\<close> identifiers each, record their own length as
  \<open>count\<close>, and their \<open>comment_ids\<close> concatenated in that order are the post's list. The
  organizer's constructor sets \<open>C = 1000\<close>.
\<close>

theorem chunks_partition_comments:
  assumes "0 < chunk_size self" and "distinct (map fst d)" and "(sc, comments) \<in> set d"
  shows "\<exists>self' fs'. create_chunked_files self [] d = Inr (self', fs')
     \<and> int (length (chunks_written fs' sc)) = \<lceil>real (length comments) / real (chunk_size self)\<rceil>
     \<and> map chunk_index (chunks_written fs' sc) = [0..<length (chunks_written fs' sc)]
     \<and> (\<forall>i. i + 1 < length (chunks_written fs' sc) \<longrightarrow>
           length (comment_ids (chunks_written fs' sc ! i)) = chunk_size self)
     \<and> (\<forall>c \<in> set (chunks_written fs' sc).
           shortcode c = sc \<and> count_c c = length (comment_ids c)
           \<and> 1 \<le> count_c c \<and> count_c c \<le> chunk_size self)
     \<and> concat (map comment_ids (chunks_written fs' sc)) = comments
     \<and> chunk_size (organizer_init cdir odir) = 1000"
proof -
  let ?st = "fold post_pass d (ccf_start self [])"
  let ?cs = "map (chunk_at (chunk_size self) sc comments)
               (range_list 0 (length comments) (chunk_size self))"
  have w: "chunks_written (fs_log ?st) sc = ?cs"
    using assms by (rule chunks_written_result)
  have len: "length ?cs = (length comments + chunk_size self - 1) div chunk_size self"
    using assms(1) by (simp add: range_list_closed)
  have a: "int (length ?cs) = \<lceil>real (length comments) / real (chunk_size self)\<rceil>"
    using assms(1) by (simp only: len ceil_div_nat)
  have b: "map chunk_index ?cs = [0..<length ?cs]"
    using assms(1) by (simp only: len post_chunks_index)
  have c: "\<forall>i. i + 1 < length ?cs \<longrightarrow> length (comment_ids (?cs ! i)) = chunk_size self"
    unfolding len using post_chunks_full [OF assms(1)] by blast
  have d: "\<forall>c \<in> set ?cs. shortcode c = sc \<and> count_c c = length (comment_ids c)
           \<and> 1 \<le> count_c c \<and> count_c c \<le> chunk_size self"
    using post_chunks_each [OF assms(1)] by blast
  have e: "concat (map comment_ids ?cs) = comments"
    using assms(1) by (rule post_chunks_concat)
  have f: "chunk_size (organizer_init cdir odir) = 1000" by (simp add: organizer_init_def)
  show ?thesis
    unfolding create_chunked_files_ok [OF assms(1)]
    by (intro exI conjI, rule refl) (unfold w, (rule a b c d e f)+)
qed

text \<open>Five identifiers in chunks of two: three chunks, which concatenate to the input.\<close>

theorem chunks_partition_comments_witness:
  "\<exists>self' fs'. create_chunked_files example_organizer [] example_posts = Inr (self', fs')
     \<and> int (length (chunks_written fs' ''p'')) = 3
     \<and> map chunk_index (chunks_written fs' ''p'') = [0..<length (chunks_written fs' ''p'')]
     \<and> concat (map comment_ids (chunks_written fs' ''p'')) = [''a'', ''b'', ''c'', ''d'', ''e'']"
proof -
  have h1: "0 < chunk_size example_organizer"
    by (simp add: example_organizer_def organizer_init_def)
  have h2: "distinct (map fst example_posts)" by (simp add: example_posts_def)
  have h3: "(''p'', [''a'', ''b'', ''c'', ''d'', ''e'']) \<in> set example_posts"
    by (simp add: example_posts_def)
  have c: "\<lceil>real (length [''a'', ''b'', ''c'', ''d'', ''e'']) / real (chunk_size example_organizer)\<rceil> = 3"
    by (simp add: example_organizer_def organizer_init_def)
  from chunks_partition_comments [OF h1 h2 h3] show ?thesis
    unfolding c by blast
qed

lemma stats_result:
  assumes "0 < chunk_size self"
  shows "create_chunked_files self fs d = Inr (self', fs') \<Longrightarrow>
     posts (index_data self') = posts (index_data (self_o (fold post_pass d (ccf_start self fs))))
     \<and> total_posts (stats (index_data self')) = length (posts (index_data self'))
     \<and> total_comments_s (stats (index_data self'))
         = sum_list (map (\<lambda>(sc, comments). length comments) d)
     \<and> total_chunks (stats (index_data self'))
         = sum_list (map (\<lambda>(sc, comments).
             length (range_list 0 (length comments) (chunk_size self))) d)
     \<and> fs' = fs_log (fold post_pass d (ccf_start self fs))"
  unfolding create_chunked_files_ok [OF assms]
  using total_comments_fold_post_pass [of d "ccf_start self fs"]
    total_chunks_fold_post_pass [of d "ccf_start self fs"]
  by (auto simp: ccf_start_def)

text \<open>
  Claim C3. After the chunking step on a fresh index (positive chunk size, distinct post
  identifiers), every post entry of the index has chunk descriptors whose \<open>count\<close> fields sum
  to its \<open>total_comments\<close>, which is the length of that post's comment list in the input
  mapping, and its \<open>chunk_count\<close> is the number of its descriptors; the statistics are the
  number of post entries, the sum of their \<open>total_comments\<close> and the sum of their
  \<open>chunk_count\<close>.
\<close>

theorem index_counts_consistent:
  assumes "0 < chunk_size self" and "distinct (map fst d)" and "posts (index_data self) = []"
  shows "\<exists>self' fs'. create_chunked_files self fs d = Inr (self', fs')
     \<and> (\<forall>(sc, e) \<in> set (posts (index_data self')).
           sum_list (map count_d (chunks e)) = total_comments e
           \<and> total_comments e = length (dict_get d sc [])
           \<and> chunk_count e = length (chunks e))
     \<and> total_posts (stats (index_data self')) = length (posts (index_data self'))
     \<and> total_comments_s (stats (index_data self'))
         = sum_list (map (\<lambda>(sc, e). total_comments e) (posts (index_data self')))
     \<and> total_chunks (stats (index_data self'))
         = sum_list (map (\<lambda>(sc, e). chunk_count e) (posts (index_data self')))"
proof -
  let ?C = "chunk_size self"
  obtain self' fs' where r: "create_chunked_files self fs d = Inr (self', fs')"
    using create_chunked_files_ok [OF assms(1)] by blast
  note s = stats_result [OF assms(1) r]
  have p: "posts (index_data self')
      = map (\<lambda>(sc, comments). (sc, post_entry_of ?C sc comments))
          (filter (\<lambda>(sc, comments). comments \<noteq> []) d)"
    using s posts_result [OF assms(2,3)] by simp
  have a: "\<forall>(sc, e) \<in> set (posts (index_data self')).
           sum_list (map count_d (chunks e)) = total_comments e
           \<and> total_comments e = length (dict_get d sc [])
           \<and> chunk_count e = length (chunks e)"
  proof (clarify)
    fix sc e assume "(sc, e) \<in> set (posts (index_data self'))"
    then obtain comments where m: "(sc, comments) \<in> set d" and e: "e = post_entry_of ?C sc comments"
      unfolding p by auto
    have "map_of d sc = Some comments" using assms(2) m by simp
    then have g: "dict_get d sc [] = comments" by (simp add: dict_get_def)
    have "sum_list (map count_d (chunks e)) = length comments"
      unfolding e using assms(1) by (rule post_entry_counts)
    then show "sum_list (map count_d (chunks e)) = total_comments e
           \<and> total_comments e = length (dict_get d sc [])
           \<and> chunk_count e = length (chunks e)"
      by (simp add: g e post_entry_of_def)
  qed
  have b: "sum_list (map (\<lambda>(sc, e). total_comments e) (posts (index_data self')))
      = sum_list (map (\<lambda>(sc, comments). length comments) d)"
  proof -
    have "sum_list (map (\<lambda>(sc, e). total_comments e) (posts (index_data self')))
        = sum_list (map (\<lambda>(sc, comments). length comments)
            (filter (\<lambda>(sc, comments). comments \<noteq> []) d))"
      unfolding p by (simp add: comp_def post_entry_of_def split_def)
    also have "\<dots> = sum_list (map (\<lambda>(sc, comments). length comments) d)"
      by (rule sum_list_filter_zero) auto
    finally show ?thesis .
  qed
  have c: "sum_list (map (\<lambda>(sc, e). chunk_count e) (posts (index_data self')))
      = sum_list (map (\<lambda>(sc, comments). length (range_list 0 (length comments) ?C)) d)"
  proof -
    have "sum_list (map (\<lambda>(sc, e). chunk_count e) (posts (index_data self')))
        = sum_list (map (\<lambda>(sc, comments). length (range_list 0 (length comments) ?C))
            (filter (\<lambda>(sc, comments). comments \<noteq> []) d))"
      unfolding p by (simp add: comp_def post_entry_of_def split_def)
    also have "\<dots> = sum_list (map (\<lambda>(sc, comments). length (range_list 0 (length comments) ?C)) d)"
      by (rule sum_list_filter_zero) (auto simp: range_list_empty)
    finally show ?thesis .
  qed
  have s1: "total_posts (stats (index_data self')) = length (posts (index_data self'))"
    using s by blast
  have s2: "total_comments_s (stats (index_data self'))
      = sum_list (map (\<lambda>(sc, e). total_comments e) (posts (index_data self')))"
    unfolding b using s by blast
  have s3: "total_chunks (stats (index_data self'))
      = sum_list (map (\<lambda>(sc, e). chunk_count e) (posts (index_data self')))"
    unfolding c using s by blast
  from r a s1 s2 s3 show ?thesis by blast
qed

text \<open>The statistics of the example run.\<close>

theorem index_counts_consistent_witness:
  "0 < chunk_size example_organizer \<and> distinct (map fst example_posts)
   \<and> posts (index_data example_organizer) = []
   \<and> (\<exists>self' fs'. create_chunked_files example_organizer [] example_posts = Inr (self', fs')
     \<and> total_posts (stats (index_data self')) = length (posts (index_data self'))
     \<and> total_comments_s (stats (index_data self'))
         = sum_list (map (\<lambda>(sc, e). total_comments e) (posts (index_data self')))
     \<and> total_chunks (stats (index_data self'))
         = sum_list (map (\<lambda>(sc, e). chunk_count e) (posts (index_data self'))))"
proof -
  have h1: "0 < chunk_size example_organizer"
    by (simp add: example_organizer_def organizer_init_def)
  have h2: "distinct (map fst example_posts)" by (simp add: example_posts_def)
  have h3: "posts (index_data example_organizer) = []"
    by (simp add: example_organizer_def organizer_init_def)
  from index_counts_consistent [OF h1 h2 h3, of "[]"] h1 h2 h3 show ?thesis by blast
qed

text \<open>
  Claim C5. After the chunking step on a fresh index, a post whose comment list is empty
  has no chunk file and no entry under \<open>posts\<close>; every entry of the index has at least one
  comment and at least one chunk.
\<close>

theorem empty_posts_excluded:
  assumes "0 < chunk_size self" and "distinct (map fst d)" and "posts (index_data self) = []"
  shows "\<exists>self' fs'. create_chunked_files self [] d = Inr (self', fs')
     \<and> (\<forall>sc. (sc, []) \<in> set d \<longrightarrow>
           chunks_written fs' sc = [] \<and> map_of (posts (index_data self')) sc = None)
     \<and> (\<forall>(sc, e) \<in> set (posts (index_data self')).
           1 \<le> total_comments e \<and> 1 \<le> chunk_count e \<and> chunks e \<noteq> [])"
proof -
  let ?C = "chunk_size self"
  obtain self' fs' where r: "create_chunked_files self [] d = Inr (self', fs')"
    using create_chunked_files_ok [OF assms(1)] by blast
  note s = stats_result [OF assms(1) r]
  have p: "posts (index_data self')
      = map (\<lambda>(sc, comments). (sc, post_entry_of ?C sc comments))
          (filter (\<lambda>(sc, comments). comments \<noteq> []) d)"
    using s posts_result [OF assms(2,3)] by simp
  have a: "chunks_written fs' sc = [] \<and> map_of (posts (index_data self')) sc = None"
    if m: "(sc, []) \<in> set d" for sc
  proof
    have "chunks_written (fs_log (fold post_pass d (ccf_start self []))) sc
        = map (chunk_at ?C sc []) (range_list 0 (length ([] :: string list)) ?C)"
      using assms(1,2) m by (rule chunks_written_result)
    then show "chunks_written fs' sc = []" using s by (simp add: range_list_empty)
    have "sc \<notin> fst ` set (posts (index_data self'))"
    proof
      assume "sc \<in> fst ` set (posts (index_data self'))"
      then obtain comments where "(sc, comments) \<in> set d" "comments \<noteq> []"
        unfolding p by auto
      then show False using m assms(2) by (meson eq_key_imp_eq_value)
    qed
    then show "map_of (posts (index_data self')) sc = None"
      by (simp add: map_of_eq_None_iff)
  qed
  have b: "\<forall>(sc, e) \<in> set (posts (index_data self')).
           1 \<le> total_comments e \<and> 1 \<le> chunk_count e \<and> chunks e \<noteq> []"
  proof (clarify)
    fix sc e assume "(sc, e) \<in> set (posts (index_data self'))"
    then obtain comments where m: "comments \<noteq> []" and e: "e = post_entry_of ?C sc comments"
      unfolding p by auto
    have "1 \<le> chunk_count e" unfolding e using assms(1) m by (rule post_entry_nonempty)
    moreover have "chunk_count e = length (chunks e)" by (simp add: e post_entry_of_def)
    moreover have "0 < length comments" using m by simp
    ultimately show "1 \<le> total_comments e \<and> 1 \<le> chunk_count e \<and> chunks e \<noteq> []"
      by (auto simp: e post_entry_of_def Suc_le_eq)
  qed
  show ?thesis using r a b by blast
qed

text \<open>The post \<open>q\<close> of the example has no comments: no chunk file, no index entry.\<close>

theorem empty_posts_excluded_witness:
  "0 < chunk_size example_organizer \<and> distinct (map fst example_posts)
   \<and> posts (index_data example_organizer) = []
   \<and> (''q'', []) \<in> set example_posts
   \<and> (\<exists>self' fs'. create_chunked_files example_organizer [] example_posts = Inr (self', fs')
     \<and> chunks_written fs' ''q'' = [] \<and> map_of (posts (index_data self')) ''q'' = None)"
proof -
  have h1: "0 < chunk_size example_organizer"
    by (simp add: example_organizer_def organizer_init_def)
  have h2: "distinct (map fst example_posts)" by (simp add: example_posts_def)
  have h3: "posts (index_data example_organizer) = []"
    by (simp add: example_organizer_def organizer_init_def)
  have h4: "(''q'', []) \<in> set example_posts" by (simp add: example_posts_def)
  from empty_posts_excluded [OF h1 h2 h3] h1 h2 h3 h4 show ?thesis by blast
qed

text \<open>The example run, evaluated: posts \<open>p\<close> (5 comments) and \<open>r\<close> (1) with chunk size 2.\<close>

lemma example_run:
  "\<exists>self' fs'. create_chunked_files example_organizer [] example_posts = Inr (self', fs')
     \<and> map fst (posts (index_data self')) = [''p'', ''r'']
     \<and> stats (index_data self') = \<lparr>total_posts = 2, total_comments_s = 6, total_chunks = 4\<rparr>
     \<and> map comment_ids (chunks_written fs' ''p'') = [[''a'', ''b''], [''c'', ''d''], [''e'']]"
  by (simp add: create_chunked_files_def example_organizer_def example_posts_def organizer_init_def
      process_post_def py_range_def range_list.simps chunk_step_def chunks_written_def Let_def)

section \<open>Properties of the summary\<close>

lemma sort_reverse_descending: "sorted_wrt (\<ge>) (map f (sort_reverse f xs))"
proof -
  have "sorted (map (\<lambda>x. - f x) (sort_key (\<lambda>x. - f x) xs))" by (rule sorted_sort_key)
  then show ?thesis by (simp add: sort_reverse_def sorted_wrt_map)
qed

lemma sort_reverse_stable:
  "filter (\<lambda>x. f x = k) (sort_reverse f xs) = filter (\<lambda>x. f x = k) xs"
  using sort_key_stable [of "\<lambda>x. - f x" "- k" xs] by (simp add: sort_reverse_def)

lemma mset_sort_reverse: "mset (sort_reverse f xs) = mset xs"
  by (simp add: sort_reverse_def)

lemma summary_posts_eq: "summary_posts self = sort_reverse (\<lambda>x. int (comment_count x)) (index_posts_list self)"
  by (simp add: summary_posts_def index_posts_list_def)

text \<open>
  Claim C6. The summary lists the posts of the index by comment count, largest first: the
  counts along the summary never increase, the summary holds the same entries as the index
  (in iteration order, \<open>index_posts_list\<close>), and for every count the posts with that count
  stand in the summary in the order they have in the index (the sort is stable).
  \<open>create_index_files\<close> writes the index and then this summary. For counts 5, 20, 5, 1
  the summary order is 20, 5, 5, 1 with the first count-5 post before the second.
\<close>

theorem summary_sorted_descending_stable:
  "sorted_wrt (\<ge>) (map comment_count (summary_posts self))
   \<and> mset (summary_posts self) = mset (index_posts_list self)
   \<and> (\<forall>n. filter (\<lambda>x. comment_count x = n) (summary_posts self)
           = filter (\<lambda>x. comment_count x = n) (index_posts_list self))
   \<and> create_index_files self fs
       = fs @ [WriteIndex (path_join (output_dir self) ''index.json'') (index_data self),
               WriteSummary (path_join (output_dir self) ''summary.json'')
                 \<lparr>posts_s = summary_posts self, stats_s = stats (index_data self)\<rparr>]
   \<and> map comment_count (index_posts_list example_index) = [5, 20, 5, 1]
   \<and> map comment_count (summary_posts example_index) = [20, 5, 5, 1]
   \<and> map shortcode_p (summary_posts example_index) = [''p1'', ''p0'', ''p2'', ''p3'']"
proof -
  have "sorted_wrt (\<ge>) (map (\<lambda>x. int (comment_count x)) (summary_posts self))"
    unfolding summary_posts_eq by (rule sort_reverse_descending)
  then have a: "sorted_wrt (\<ge>) (map comment_count (summary_posts self))"
    by (simp add: sorted_wrt_map)
  have b: "mset (summary_posts self) = mset (index_posts_list self)"
    unfolding summary_posts_eq by (rule mset_sort_reverse)
  have c: "filter (\<lambda>x. comment_count x = n) (summary_posts self)
           = filter (\<lambda>x. comment_count x = n) (index_posts_list self)" for n
    using sort_reverse_stable [of "\<lambda>x. int (comment_count x)" "int n" "index_posts_list self"]
    by (simp add: summary_posts_eq)
  have d: "create_index_files self fs
       = fs @ [WriteIndex (path_join (output_dir self) ''index.json'') (index_data self),
               WriteSummary (path_join (output_dir self) ''summary.json'')
                 \<lparr>posts_s = summary_posts self, stats_s = stats (index_data self)\<rparr>]"
    by (simp add: create_index_files_def Let_def)
  have e: "map comment_count (index_posts_list example_index) = [5, 20, 5, 1]"
    by (simp add: index_posts_list_def example_index_def example_entry_def post_entry_of_def)
  have f: "map comment_count (summary_posts example_index) = [20, 5, 5, 1]"
    "map shortcode_p (summary_posts example_index) = [''p1'', ''p0'', ''p2'', ''p3'']"
    by (simp_all add: summary_posts_def example_index_def example_entry_def post_entry_of_def sort_reverse_def)
  from a b c d e f show ?thesis by blast
qed

text \<open>The two posts with five comments keep their order in the summary of the example.\<close>

theorem summary_sorted_descending_stable_witness:
  "filter (\<lambda>x. comment_count x = 5) (summary_posts example_index)
     = [\<lparr>shortcode_p = ''p0'', comment_count = 5\<rparr>, \<lparr>shortcode_p = ''p2'', comment_count = 5\<rparr>]
   \<and> map comment_count (summary_posts example_index) = [20, 5, 5, 1]"
  using summary_sorted_descending_stable [of example_index]
  by (simp add: index_posts_list_def example_index_def example_entry_def post_entry_of_def)

section \<open>Properties of the search index\<close>

lemma keys_fold_update_key:
  "map fst (fold (\<lambda>c d. AList.update (key c) (val c) d) cs d)
     = fold (\<lambda>c ks. ins_key ks (key c)) cs (map fst d)"
  by (induction cs arbitrary: d) (simp_all add: update_keys ins_key_def)

lemma keys_fold_update_unique:
  "map fst (fold (\<lambda>c d. AList.update (key c) (val c) d) cs [])
     = unique_comments (map key cs)"
  by (simp add: keys_fold_update_key unique_comments_fold fold_map comp_def)

lemma map_of_fold_update_last:
  "map_of (fold (\<lambda>c d. AList.update (key c) (val c) d) cs d) k
     = (if filter (\<lambda>c. key c = k) cs = [] then map_of d k
        else Some (val (last (filter (\<lambda>c. key c = k) cs))))"
proof (induction cs rule: rev_induct)
  case Nil
  then show ?case by simp
next
  case (snoc c cs)
  then show ?case by (simp add: update_conv')
qed

text \<open>
  Claim C10. The search index has one entry per distinct comment identifier of the input
  (its keys are the identifiers in order of first appearance, each once). The entry stored
  for an identifier is built from the last record of the input with that identifier: its
  text, author, video, like count and timestamps are that record's, and, for a record
  whose text and author are ASCII, its \<open>words\<close> are the whitespace split of the lower-cased
  text, a space and the author display name.
\<close>

theorem search_index_last_write_wins:
  "map fst (create_search_index comments) = unique_comments (map comment_id comments)
   \<and> distinct (map fst (create_search_index comments))
   \<and> set (map fst (create_search_index comments)) = comment_id ` set comments
   \<and> (\<forall>c \<in> set comments. \<exists>r e.
         r = last (filter (\<lambda>c'. comment_id c' = comment_id c) comments)
         \<and> map_of (create_search_index comments) (comment_id c) = Some e
         \<and> text_e e = get_or (comment_text r) []
         \<and> author e = get_or (author_display_name r) []
         \<and> video_id_e e = video_id r
         \<and> like_count_e e = get_or (like_count r) 0
         \<and> published_at_e e = get_or (published_at r) []
         \<and> published_at_timestamp_e e = get_or (published_at_timestamp r) 0
         \<and> (is_ascii (get_or (comment_text r) []) \<and> is_ascii (get_or (author_display_name r) [])
              \<longrightarrow> words e = py_split (lower (get_or (comment_text r) [] @ '' ''
                                @ get_or (author_display_name r) []))))"
proof -
  have k: "map fst (create_search_index comments) = unique_comments (map comment_id comments)"
    unfolding create_search_index_def by (rule keys_fold_update_unique)
  have d: "distinct (map fst (create_search_index comments))"
    unfolding k by (rule distinct_unique_comments)
  have s: "set (map fst (create_search_index comments)) = comment_id ` set comments"
    unfolding k by (simp add: set_unique_comments)
  have m: "\<forall>c \<in> set comments. \<exists>r e.
         r = last (filter (\<lambda>c'. comment_id c' = comment_id c) comments)
         \<and> map_of (create_search_index comments) (comment_id c) = Some e
         \<and> text_e e = get_or (comment_text r) []
         \<and> author e = get_or (author_display_name r) []
         \<and> video_id_e e = video_id r
         \<and> like_count_e e = get_or (like_count r) 0
         \<and> published_at_e e = get_or (published_at r) []
         \<and> published_at_timestamp_e e = get_or (published_at_timestamp r) 0
         \<and> (is_ascii (get_or (comment_text r) []) \<and> is_ascii (get_or (author_display_name r) [])
              \<longrightarrow> words e = py_split (lower (get_or (comment_text r) [] @ '' ''
                                @ get_or (author_display_name r) [])))"
  proof
    fix c assume "c \<in> set comments"
    then have "filter (\<lambda>c'. comment_id c' = comment_id c) comments \<noteq> []"
      by (auto simp: filter_empty_conv)
    then have "map_of (create_search_index comments) (comment_id c)
           = Some (search_entry_of
                (last (filter (\<lambda>c'. comment_id c' = comment_id c) comments)))"
      unfolding create_search_index_def by (simp add: map_of_fold_update_last)
    then show "\<exists>r e.
         r = last (filter (\<lambda>c'. comment_id c' = comment_id c) comments)
         \<and> map_of (create_search_index comments) (comment_id c) = Some e
         \<and> text_e e = get_or (comment_text r) []
         \<and> author e = get_or (author_display_name r) []
         \<and> video_id_e e = video_id r
         \<and> like_count_e e = get_or (like_count r) 0
         \<and> published_at_e e = get_or (published_at r) []
         \<and> published_at_timestamp_e e = get_or (published_at_timestamp r) 0
         \<and> (is_ascii (get_or (comment_text r) []) \<and> is_ascii (get_or (author_display_name r) [])
              \<longrightarrow> words e = py_split (lower (get_or (comment_text r) [] @ '' ''
                                @ get_or (author_display_name r) [])))"
      by (simp add: search_entry_of_def Let_def)
  qed
  show ?thesis by (intro conjI) (rule k d s m)+
qed


text \<open>Two records share the identifier \<open>c1\<close>; the entry stored is the later one's.\<close>

theorem search_index_last_write_wins_witness:
  "map fst (create_search_index example_comments) = [''c1'', ''c2'']
   \<and> map_of (create_search_index example_comments) ''c1''
       = Some \<lparr>words = [''bye'', ''now'', ''cy''], text_e = ''Bye NOW'', author = ''Cy'',
                video_id_e = ''v'', like_count_e = 2, published_at_e = [],
                published_at_timestamp_e = 0\<rparr>"
proof -
  let ?c = "mk_comment ''v'' ''c1'' ''Bye NOW'' ''Cy'' 2"
  have in_set: "?c \<in> set example_comments" by (simp add: example_comments_def)
  have id: "comment_id ?c = ''c1''" by (simp add: mk_comment_def)
  have l: "last (filter (\<lambda>c'. comment_id c' = ''c1'') example_comments) = ?c"
    by (simp add: example_comments_def mk_comment_def)
  have asc: "is_ascii (get_or (comment_text ?c) []) \<and> is_ascii (get_or (author_display_name ?c) [])"
    by (simp add: mk_comment_def get_or_def is_ascii_def)
  have w: "py_split (lower (get_or (comment_text ?c) [] @ '' '' @ get_or (author_display_name ?c) []))
      = [''bye'', ''now'', ''cy'']"
    by (simp add: mk_comment_def get_or_def lower_def lower_char_def
        ascii_uppercase_def ascii_lowercase_def py_split_def is_space_def)
  have u: "unique_comments (map comment_id example_comments) = [''c1'', ''c2'']"
    by (simp add: example_comments_def mk_comment_def unique_comments_def dict_fromkeys_def
        list_of_dict_def)
  note t = search_index_last_write_wins [of example_comments]
  from t have k: "map fst (create_search_index example_comments)
          = unique_comments (map comment_id example_comments)"
    by (elim conjE)
  from t have "\<forall>c \<in> set example_comments. \<exists>r e.
         r = last (filter (\<lambda>c'. comment_id c' = comment_id c) example_comments)
         \<and> map_of (create_search_index example_comments) (comment_id c) = Some e
         \<and> text_e e = get_or (comment_text r) []
         \<and> author e = get_or (author_display_name r) []
         \<and> video_id_e e = video_id r
         \<and> like_count_e e = get_or (like_count r) 0
         \<and> published_at_e e = get_or (published_at r) []
         \<and> published_at_timestamp_e e = get_or (published_at_timestamp r) 0
         \<and> (is_ascii (get_or (comment_text r) []) \<and> is_ascii (get_or (author_display_name r) [])
              \<longrightarrow> words e = py_split (lower (get_or (comment_text r) [] @ '' ''
                                @ get_or (author_display_name r) [])))"
    by (elim conjE)
  from this [rule_format, OF in_set] obtain e where
    e: "map_of (create_search_index example_comments) ''c1'' = Some e"
      "text_e e = get_or (comment_text ?c) []"
      "author e = get_or (author_display_name ?c) []"
      "video_id_e e = video_id ?c"
      "like_count_e e = get_or (like_count ?c) 0"
      "published_at_e e = get_or (published_at ?c) []"
      "published_at_timestamp_e e = get_or (published_at_timestamp ?c) 0"
      "is_ascii (get_or (comment_text ?c) []) \<and> is_ascii (get_or (author_display_name ?c) [])
              \<longrightarrow> words e = py_split (lower (get_or (comment_text ?c) [] @ '' ''
                                @ get_or (author_display_name ?c) []))"
    unfolding id l by blast
  have we: "words e = [''bye'', ''now'', ''cy'']"
    using e(8) asc w by simp
  have "e = \<lparr>words = [''bye'', ''now'', ''cy''], text_e = ''Bye NOW'', author = ''Cy'',
                video_id_e = ''v'', like_count_e = 2, published_at_e = [],
                published_at_timestamp_e = 0\<rparr>"
    using we e(2-7) by (cases e) (simp add: mk_comment_def get_or_def)
  then show ?thesis using e(1) k u by simp
qed

section \<open>Properties of the liked-words profile\<close>

lemma dict_get_dd_append:
  "dict_get (dd_append k v d) w [] = (if w = k then dict_get d k [] @ [v] else dict_get d w [])"
  by (simp add: dd_append_def dict_get_def update_conv')

lemma keys_dd_append: "fst ` set (dd_append k v d) = insert k (fst ` set d)"
  by (simp add: dd_append_def update_keys image_iff insert_absorb flip: set_map)

lemma distinct_dd_append: "distinct (map fst d) \<Longrightarrow> distinct (map fst (dd_append k v d))"
  by (simp add: dd_append_def distinct_update)

lemma dict_get_fold_words:
  "dict_get (fold (\<lambda>word d'. dd_append word v d') ws d) w []
     = dict_get d w [] @ replicate (count_list ws w) v"
  by (induction ws arbitrary: d) (simp_all add: dict_get_dd_append replicate_app_Cons_same)

lemma keys_fold_words:
  "fst ` set (fold (\<lambda>word d'. dd_append word v d') ws d) = fst ` set d \<union> set ws"
  by (induction ws arbitrary: d) (auto simp: keys_dd_append)

lemma distinct_fold_words:
  "distinct (map fst d) \<Longrightarrow> distinct (map fst (fold (\<lambda>word d'. dd_append word v d') ws d))"
  by (induction ws arbitrary: d) (simp_all add: distinct_dd_append)

lemma dict_get_fold_comments:
  "dict_get (fold (\<lambda>c d. fold (\<lambda>word d'. dd_append word (likes c) d') (comment_words c) d) cs d) w []
     = dict_get d w [] @ occurrences w cs"
  by (induction cs arbitrary: d) (simp_all add: occurrences_def dict_get_fold_words)

lemma keys_fold_comments:
  "fst ` set (fold (\<lambda>c d. fold (\<lambda>word d'. dd_append word (likes c) d') (comment_words c) d) cs d)
     = fst ` set d \<union> (\<Union>c \<in> set cs. set (comment_words c))"
  by (induction cs arbitrary: d) (auto simp: keys_fold_words)

lemma distinct_fold_comments:
  "distinct (map fst d) \<Longrightarrow>
   distinct (map fst (fold (\<lambda>c d. fold (\<lambda>word d'. dd_append word (likes c) d') (comment_words c) d) cs d))"
  by (induction cs arbitrary: d) (simp_all add: distinct_fold_words)

lemma dict_get_word_like_totals: "dict_get (word_like_totals cs) w [] = occurrences w cs"
  by (simp add: word_like_totals_def dict_get_fold_comments) (simp add: dict_get_def)

lemma distinct_word_like_totals: "distinct (map fst (word_like_totals cs))"
  by (simp add: word_like_totals_def distinct_fold_comments)

lemma keys_word_like_totals:
  "fst ` set (word_like_totals cs) = (\<Union>c \<in> set cs. set (comment_words c))"
  by (simp add: word_like_totals_def keys_fold_comments)

lemma occurrences_empty_iff:
  "occurrences w cs = [] \<longleftrightarrow> w \<notin> (\<Union>c \<in> set cs. set (comment_words c))"
  by (induction cs) (auto simp: occurrences_def count_list_0_iff)

lemma word_like_totals_member:
  "(w, lc) \<in> set (word_like_totals cs) \<longleftrightarrow> lc = occurrences w cs \<and> lc \<noteq> []"
proof -
  have "(w, lc) \<in> set (word_like_totals cs) \<longleftrightarrow> map_of (word_like_totals cs) w = Some lc"
    using distinct_word_like_totals [of cs] by simp
  also have "\<dots> \<longleftrightarrow> w \<in> fst ` set (word_like_totals cs) \<and> dict_get (word_like_totals cs) w [] = lc"
    by (cases "map_of (word_like_totals cs) w")
       (auto simp: dict_get_def map_of_eq_None_iff dest: map_of_SomeD intro: rev_image_eqI)
  also have "\<dots> \<longleftrightarrow> lc = occurrences w cs \<and> lc \<noteq> []"
    by (auto simp: dict_get_word_like_totals keys_word_like_totals occurrences_empty_iff)
  finally show ?thesis .
qed

lemma liked_word_averages_member:
  "(w, a, n) \<in> set (liked_word_averages (word_like_totals cs)) \<longleftrightarrow>
     2 \<le> length (occurrences w cs) \<and> n = length (occurrences w cs)
     \<and> a = py_round_truediv (sum_list (occurrences w cs)) n"
proof
  assume "(w, a, n) \<in> set (liked_word_averages (word_like_totals cs))"
  then obtain lc where "(w, lc) \<in> set (word_like_totals cs)" "2 \<le> length lc"
    "a = py_round_truediv (sum_list lc) (length lc)" "n = length lc"
    by (auto simp: liked_word_averages_def)
  then show "2 \<le> length (occurrences w cs) \<and> n = length (occurrences w cs)
     \<and> a = py_round_truediv (sum_list (occurrences w cs)) n"
    by (simp add: word_like_totals_member)
next
  assume r: "2 \<le> length (occurrences w cs) \<and> n = length (occurrences w cs)
     \<and> a = py_round_truediv (sum_list (occurrences w cs)) n"
  then have "occurrences w cs \<noteq> []" by auto
  then have "(w, occurrences w cs) \<in> set (word_like_totals cs)"
    by (simp add: word_like_totals_member)
  then have "(w, py_round_truediv (sum_list (occurrences w cs)) (length (occurrences w cs)),
       length (occurrences w cs)) \<in> set (liked_word_averages (word_like_totals cs))"
    using r unfolding liked_word_averages_def by (force simp: image_iff)
  then show "(w, a, n) \<in> set (liked_word_averages (word_like_totals cs))"
    using r by simp
qed

lemma count_list_distinct:
  "distinct xs \<Longrightarrow> count_list xs x = (if x \<in> set xs then 1 else 0)"
  by (induction xs) auto

lemma occurrences_once:
  assumes "\<forall>c \<in> set cs. distinct (comment_words c)"
  shows "occurrences w cs = map likes (containing w cs)"
  using assms
proof (induction cs)
  case Nil
  then show ?case by (simp add: occurrences_def containing_def)
next
  case (Cons c cs)
  have "count_list (comment_words c) w = (if w \<in> set (comment_words c) then 1 else 0)"
    using Cons.prems by (simp add: count_list_distinct)
  then show ?case using Cons by (simp add: occurrences_def containing_def)
qed

lemma py_round_div_nearest:
  assumes "0 < n"
  shows "2 * \<bar>py_round_div s n * int n - s\<bar> \<le> int n"
proof -
  let ?q = "s div int n" and ?r = "s mod int n"
  have s: "s = ?q * int n + ?r" by simp
  have r: "0 \<le> ?r" "?r < int n" using assms by simp_all
  have a: "?q * int n - s = - ?r" using s by linarith
  have b: "(?q + 1) * int n - s = int n - ?r"
    using s by (simp add: algebra_simps)
  show ?thesis
  proof (cases "2 * ?r < int n")
    case True
    then have "py_round_div s n = ?q" by (simp add: py_round_div_def Let_def)
    then show ?thesis using a r True by simp
  next
    case False
    show ?thesis
    proof (cases "int n < 2 * ?r")
      case True
      then have "py_round_div s n = ?q + 1" using False by (simp add: py_round_div_def Let_def)
      then show ?thesis using b r True by simp
    next
      case F: False
      then have h: "2 * ?r = int n" using False by simp
      then have "py_round_div s n = ?q \<or> py_round_div s n = ?q + 1"
        by (simp add: py_round_div_def Let_def)
      then show ?thesis using a b r h by auto
    qed
  qed
qed

lemma py_round_div_exact: "0 < n \<Longrightarrow> int n dvd s \<Longrightarrow> py_round_div s n = s div int n"
  by (simp add: py_round_div_def Let_def)

lemma top_of_sorted:
  "sorted_wrt (\<ge>) (map f (take k (sort_reverse f xs)))
   \<and> length (take k (sort_reverse f xs)) \<le> k
   \<and> set (take k (sort_reverse f xs)) \<subseteq> set xs
   \<and> (\<forall>x \<in> set xs - set (take k (sort_reverse f xs)).
         \<forall>y \<in> set (take k (sort_reverse f xs)). f x \<le> f y)"
proof -
  let ?s = "sort_reverse f xs"
  have srt: "sorted_wrt (\<ge>) (map f (take k ?s @ drop k ?s))"
    using sort_reverse_descending [of f xs] by simp
  have set_s: "set ?s = set xs" by (simp add: sort_reverse_def)
  have a: "sorted_wrt (\<ge>) (map f (take k ?s))"
    using srt by (simp add: sorted_wrt_append del: append_take_drop_id)
  have b: "set (take k ?s) \<subseteq> set xs" using set_take_subset [of k ?s] set_s by simp
  have c: "\<forall>x \<in> set xs - set (take k ?s). \<forall>y \<in> set (take k ?s). f x \<le> f y"
  proof (intro ballI)
    fix x y assume x: "x \<in> set xs - set (take k ?s)" and y: "y \<in> set (take k ?s)"
    have "set ?s = set (take k ?s) \<union> set (drop k ?s)"
      by (metis append_take_drop_id set_append)
    then have "x \<in> set (drop k ?s)" using x set_s by auto
    then show "f x \<le> f y"
      using srt y by (auto simp: sorted_wrt_append simp del: append_take_drop_id)
  qed
  from a b c show ?thesis by simp
qed

lemma dict_get_fold_group:
  "dict_get (fold (\<lambda>c d. dd_append (key c) c d) cs d) k []
     = dict_get d k [] @ filter (\<lambda>c. key c = k) cs"
  by (induction cs arbitrary: d) (simp_all add: dict_get_dd_append)

lemma keys_fold_group:
  "fst ` set (fold (\<lambda>c d. dd_append (key c) c d) cs d) = fst ` set d \<union> key ` set cs"
  by (induction cs arbitrary: d) (auto simp: keys_dd_append)

lemma distinct_fold_group:
  "distinct (map fst d) \<Longrightarrow> distinct (map fst (fold (\<lambda>c d. dd_append (key c) c d) cs d))"
  by (induction cs arbitrary: d) (simp_all add: distinct_dd_append)

lemma video_comments_of_lookup:
  assumes "c0 \<in> set comments"
  shows "map_of (video_comments_of comments) (video_id c0)
     = Some (filter (\<lambda>c. video_id c = video_id c0) comments)"
proof -
  have "video_id c0 \<in> fst ` set (video_comments_of comments)"
    using assms by (simp add: video_comments_of_def keys_fold_group)
  then obtain l where l: "map_of (video_comments_of comments) (video_id c0) = Some l"
    by (cases "map_of (video_comments_of comments) (video_id c0)")
       (auto simp: map_of_eq_None_iff)
  then have "dict_get (video_comments_of comments) (video_id c0) [] = l"
    by (simp add: dict_get_def)
  moreover have "dict_get (video_comments_of comments) (video_id c0) []
      = filter (\<lambda>c. video_id c = video_id c0) comments"
    by (simp add: video_comments_of_def dict_get_fold_group) (simp add: dict_get_def)
  ultimately show ?thesis using l by simp
qed

lemma fold_update_distinct:
  assumes "distinct (map fst d)"
  shows "fold (\<lambda>(k, v) ps. AList.update k (g v) ps) d [] = map (\<lambda>(k, v). (k, g v)) d"
  using fold_update_fresh [OF assms, of "[]" "\<lambda>_. False" "\<lambda>k v. g v"] by simp

lemma create_word_frequency_index_lookup:
  assumes "c0 \<in> set comments"
  shows "map_of (create_word_frequency_index comments) (video_id c0)
     = Some (video_word_freq (filter (\<lambda>c. video_id c = video_id c0) comments))"
proof -
  have d: "distinct (map fst (video_comments_of comments))"
    by (simp add: video_comments_of_def distinct_fold_group)
  have "create_word_frequency_index comments
      = map (\<lambda>(vid, l). (vid, video_word_freq l)) (video_comments_of comments)"
    unfolding create_word_frequency_index_def by (rule fold_update_distinct [OF d])
  then show ?thesis
    using video_comments_of_lookup [OF assms] by (simp add: map_of_map)
qed

lemma keys_list_dd_append: "map fst (dd_append k v d) = ins_key (map fst d) k"
  by (simp add: dd_append_def update_keys ins_key_def)

lemma keys_list_fold_words:
  "map fst (fold (\<lambda>word d'. dd_append word v d') ws d) = fold (\<lambda>w ks. ins_key ks w) ws (map fst d)"
  by (induction ws arbitrary: d) (simp_all add: keys_list_dd_append)

lemma keys_list_fold_comments:
  "map fst (fold (\<lambda>c d. fold (\<lambda>word d'. dd_append word (likes c) d') (comment_words c) d) cs d)
     = fold (\<lambda>w ks. ins_key ks w) (concat (map comment_words cs)) (map fst d)"
  by (induction cs arbitrary: d) (simp_all add: keys_list_fold_words)

lemma keys_list_word_like_totals:
  "map fst (word_like_totals cs) = unique_comments (concat (map comment_words cs))"
  by (simp add: word_like_totals_def keys_list_fold_comments unique_comments_fold)

lemma dict_as_map:
  "distinct (map fst d) \<Longrightarrow> d = map (\<lambda>k. (k, dict_get d k dflt)) (map fst d)"
proof (induction d)
  case Nil
  then show ?case by simp
next
  case (Cons kv d)
  obtain k v where kv: "kv = (k, v)" by (cases kv)
  have nk: "k \<notin> fst ` set d" and dd: "distinct (map fst d)"
    using Cons.prems by (simp_all add: kv)
  have e1: "map (\<lambda>k'. (k', dict_get ((k, v) # d) k' dflt)) (map fst d)
      = map (\<lambda>k'. (k', dict_get d k' dflt)) (map fst d)"
  proof (rule map_cong [OF refl])
    fix k' assume "k' \<in> set (map fst d)"
    then have "k' \<noteq> k" using nk by auto
    then show "(k', dict_get ((k, v) # d) k' dflt) = (k', dict_get d k' dflt)"
      by (simp add: dict_get_def)
  qed
  have e2: "map (\<lambda>k. (k, dict_get d k dflt)) (map fst d) = d"
    using Cons.IH [OF dd] by (rule sym)
  have e3: "map (\<lambda>k'. (k', dict_get ((k, v) # d) k' dflt)) (map fst d) = d"
    by (rule trans [OF e1 e2])
  have e4: "dict_get ((k, v) # d) k dflt = v" by (simp add: dict_get_def)
  have "map (\<lambda>k'. (k', dict_get ((k, v) # d) k' dflt)) (map fst ((k, v) # d))
      = (k, dict_get ((k, v) # d) k dflt)
        # map (\<lambda>k'. (k', dict_get ((k, v) # d) k' dflt)) (map fst d)"
    by simp
  also have "\<dots> = (k, v) # d" unfolding e3 e4 ..
  finally show ?case unfolding kv by (rule sym)
qed

lemma word_like_totals_as_map:
  "word_like_totals cs
     = map (\<lambda>w. (w, occurrences w cs)) (unique_comments (concat (map comment_words cs)))"
  using dict_as_map [OF distinct_word_like_totals, of cs "[]"]
  by (simp add: dict_get_word_like_totals keys_list_word_like_totals)

lemma liked_word_averages_as_map:
  assumes "\<forall>c \<in> set cs. distinct (comment_words c)"
  shows "liked_word_averages (word_like_totals cs)
     = map (\<lambda>w. (w, py_round_truediv (sum_list (map likes (containing w cs)))
                      (length (containing w cs)),
                  length (containing w cs)))
         (filter (\<lambda>w. 2 \<le> length (containing w cs))
            (unique_comments (concat (map comment_words cs))))"
proof -
  have occ: "occurrences w cs = map likes (containing w cs)" for w
    using assms by (rule occurrences_once)
  show ?thesis
    unfolding liked_word_averages_def word_like_totals_as_map
    by (simp add: filter_map comp_def occ)
qed

lemma py_round_div_tie_even:
  assumes "0 < n" and "2 * \<bar>py_round_div s n * int n - s\<bar> = int n"
  shows "even (py_round_div s n)"
proof -
  let ?q = "s div int n" and ?r = "s mod int n"
  have s: "s = ?q * int n + ?r" by simp
  have r: "0 \<le> ?r" "?r < int n" using assms(1) by simp_all
  have a: "?q * int n - s = - ?r" using s by linarith
  have b: "(?q + 1) * int n - s = int n - ?r"
    using s by (simp add: algebra_simps)
  show ?thesis
  proof (cases "2 * ?r < int n")
    case True
    then have "py_round_div s n = ?q" by (simp add: py_round_div_def Let_def)
    then show ?thesis using a r True assms(2) by simp
  next
    case False
    show ?thesis
    proof (cases "int n < 2 * ?r")
      case True
      then have "py_round_div s n = ?q + 1" using False by (simp add: py_round_div_def Let_def)
      then show ?thesis using b r True assms(2) by simp
    next
      case F: False
      then have h: "2 * ?r = int n" using False by simp
      then show ?thesis by (simp add: py_round_div_def Let_def)
    qed
  qed
qed


text \<open>
  The float quotient against the exact one. For \<open>0 < a < 2^52\<close> the double nearest to
  \<open>a / b\<close> has its last mantissa bit at \<open>2^-T\<close> with \<open>T \<ge> 1\<close>, so integers and half-integers are
  doubles and the double lies between the same two of them as the quotient; it is a
  half-integer only if the quotient is one, since otherwise the quotient is at least
  \<open>1 / (2 * b)\<close> away from it, which is more than half the spacing of the doubles unless
  \<open>a \<ge> 2^52\<close>. Hence rounding the double gives the integer nearest to the exact quotient.
\<close>

lemma bit_length_bounds:
  "0 < n \<Longrightarrow> 2 ^ (bit_length n - 1) \<le> n \<and> n < 2 ^ bit_length n"
proof (induction n rule: less_induct)
  case (less n)
  show ?case
  proof (cases "n div 2 = 0")
    case True
    then have "n = 1" using less.prems by (simp add: div_eq_0_iff) 
    then show ?thesis by (simp add: bit_length.simps [of "Suc 0"] bit_length.simps [of 0])
  next
    case False
    then have p: "0 < n div 2" by simp
    have l: "n div 2 < n" using less.prems by simp
    from less.IH [OF l p]
    have ih: "2 ^ (bit_length (n div 2) - 1) \<le> n div 2" "n div 2 < 2 ^ bit_length (n div 2)"
      by simp_all
    have bl: "bit_length n = Suc (bit_length (n div 2))"
      using less.prems by (simp add: bit_length.simps [of n])
    have pos: "0 < bit_length (n div 2)"
      using p by (simp add: bit_length.simps [of "n div 2"])
    then have e: "2 ^ bit_length (n div 2) = 2 * (2::nat) ^ (bit_length (n div 2) - 1)"
      by (cases "bit_length (n div 2)") simp_all
    have "2 ^ (bit_length n - 1) \<le> n"
      using ih(1) e unfolding bl by simp
    moreover have "n < 2 ^ bit_length n"
      using ih(2) unfolding bl by simp
    ultimately show ?thesis by simp
  qed
qed

lemma abs_far: "2 * \<bar>x + y\<bar> \<le> N \<Longrightarrow> 2 * \<bar>x\<bar> \<le> N \<Longrightarrow> 0 < N \<Longrightarrow> 2 * N \<le> \<bar>y\<bar> \<Longrightarrow> False"
  for x y N :: int
  by (cases "0 \<le> x"; cases "0 \<le> y"; cases "0 \<le> x + y"; simp)

lemma abs_tie_up: "2 * \<bar>x + N\<bar> \<le> N \<Longrightarrow> 2 * \<bar>x\<bar> \<le> N \<Longrightarrow> 2 * \<bar>x\<bar> = N \<and> 2 * \<bar>x + N\<bar> = N"
  for x N :: int
  by (cases "0 \<le> x"; cases "0 \<le> x + N"; simp)

lemma abs_tie_down: "2 * \<bar>x - N\<bar> \<le> N \<Longrightarrow> 2 * \<bar>x\<bar> \<le> N \<Longrightarrow> 2 * \<bar>x\<bar> = N \<and> 2 * \<bar>x - N\<bar> = N"
  for x N :: int
  by (cases "0 \<le> x"; cases "0 \<le> x - N"; simp)

lemma abs_above: "a + n \<le> r \<Longrightarrow> 2 * \<bar>r - s\<bar> \<le> n \<Longrightarrow> 0 < n \<Longrightarrow> s \<le> a \<Longrightarrow> False"
  for a n r s :: int
  by (cases "0 \<le> r - s"; simp)

lemma abs_below: "r \<le> a - n \<Longrightarrow> 2 * \<bar>r - s\<bar> \<le> n \<Longrightarrow> 0 < n \<Longrightarrow> a \<le> s \<Longrightarrow> False"
  for a n r s :: int
  by (cases "0 \<le> r - s"; simp)

lemma py_round_div_unique:
  assumes n: "0 < n"
    and near: "2 * \<bar>z * int n - s\<bar> \<le> int n"
    and tie: "2 * \<bar>z * int n - s\<bar> = int n \<Longrightarrow> even z"
  shows "py_round_div s n = z"
proof -
  define z' where "z' = py_round_div s n"
  have near': "2 * \<bar>z' * int n - s\<bar> \<le> int n"
    unfolding z'_def using n by (rule py_round_div_nearest)
  have tie': "2 * \<bar>z' * int n - s\<bar> = int n \<Longrightarrow> even z'"
    unfolding z'_def using n by (rule py_round_div_tie_even)
  define N where "N = int n"
  define x where "x = z' * N - s"
  have N: "0 < N" using n by (simp add: N_def)
  have zx: "z * N - s = x + (z - z') * N"
    by (simp add: x_def algebra_simps)
  have d: "\<bar>z - z'\<bar> \<le> 1"
  proof (rule ccontr)
    assume "\<not> \<bar>z - z'\<bar> \<le> 1"
    then have "2 \<le> \<bar>z - z'\<bar>" by simp
    then have "2 * N \<le> \<bar>z - z'\<bar> * N" using N by simp
    also have "\<dots> = \<bar>(z - z') * N\<bar>" using N by (simp add: abs_mult)
    finally have y1: "2 * N \<le> \<bar>(z - z') * N\<bar>" .
    define y where "y = (z - z') * N"
    have y2: "2 * \<bar>x + y\<bar> \<le> N" using near zx by (simp add: N_def y_def)
    have y3: "2 * \<bar>x\<bar> \<le> N" using near' by (simp add: x_def N_def)
    from y1 have "2 * N \<le> \<bar>y\<bar>" by (simp add: y_def)
    with y2 y3 N show False by (rule abs_far)
  qed
  have "z = z'"
  proof (rule ccontr)
    assume ne: "z \<noteq> z'"
    then consider "z = z' + 1" | "z = z' - 1" using d by linarith
    then show False
    proof cases
      case 1
      then have "z - z' = 1" by simp
      then have zx1: "z * N - s = x + N" using zx by simp
      have a: "2 * \<bar>x + N\<bar> \<le> N" using near zx1 by (simp add: N_def)
      have b: "2 * \<bar>x\<bar> \<le> N" using near' by (simp add: x_def N_def)
      from a b have "2 * \<bar>x\<bar> = N" "2 * \<bar>x + N\<bar> = N"
        using abs_tie_up [of x N] by simp_all
      then have "2 * \<bar>z' * N - s\<bar> = N" "2 * \<bar>z * N - s\<bar> = N"
        by (simp_all only: zx1 x_def)
      then have "even z'" "even z"
        using tie tie' unfolding N_def by blast+
      then show False using 1 by simp
    next
      case 2
      then have "z - z' = - 1" by simp
      then have zx1: "z * N - s = x - N" using zx by simp
      have a: "2 * \<bar>x - N\<bar> \<le> N" using near zx1 by (simp add: N_def)
      have b: "2 * \<bar>x\<bar> \<le> N" using near' by (simp add: x_def N_def)
      from a b have "2 * \<bar>x\<bar> = N" "2 * \<bar>x - N\<bar> = N"
        using abs_tie_down [of x N] by simp_all
      then have "2 * \<bar>z' * N - s\<bar> = N" "2 * \<bar>z * N - s\<bar> = N"
        by (simp_all only: zx1 x_def)
      then have "even z'" "even z"
        using tie tie' unfolding N_def by blast+
      then show False using 2 by simp
    qed
  qed
  then show ?thesis by (simp add: z'_def)
qed

lemma py_round_div_le:
  assumes n: "0 < n" and "s \<le> H * int n"
  shows "py_round_div s n \<le> H"
proof (rule ccontr)
  assume "\<not> py_round_div s n \<le> H"
  then have "H + 1 \<le> py_round_div s n" by simp
  then have "(H + 1) * int n \<le> py_round_div s n * int n" using n by simp
  then have a: "H * int n + int n \<le> py_round_div s n * int n" by (simp add: algebra_simps)
  have b: "2 * \<bar>py_round_div s n * int n - s\<bar> \<le> int n"
    using n by (rule py_round_div_nearest)
  have c: "0 < int n" using n by simp
  show False using a b c assms(2) by (rule abs_above)
qed

lemma py_round_div_ge:
  assumes n: "0 < n" and "H * int n \<le> s"
  shows "H \<le> py_round_div s n"
proof (rule ccontr)
  assume "\<not> H \<le> py_round_div s n"
  then have "py_round_div s n \<le> H - 1" by simp
  then have "py_round_div s n * int n \<le> (H - 1) * int n" using n by simp
  then have a: "py_round_div s n * int n \<le> H * int n - int n" by (simp add: algebra_simps)
  have b: "2 * \<bar>py_round_div s n * int n - s\<bar> \<le> int n"
    using n by (rule py_round_div_nearest)
  have c: "0 < int n" using n by simp
  show False using a b c assms(2) by (rule abs_below)
qed


lemma float_exponent_lower:
  assumes "0 < a" and "0 < b"
  shows "b * 2 ^ nat (float_exponent a b) \<le> a * 2 ^ nat (- float_exponent a b)"
proof -
  define la lb where "la = bit_length a" and "lb = bit_length b"
  define d where "d = int la - int lb"
  have a: "2 ^ (la - 1) \<le> a" "a < 2 ^ la" and b: "2 ^ (lb - 1) \<le> b" "b < 2 ^ lb"
    using bit_length_bounds [OF assms(1)] bit_length_bounds [OF assms(2)]
    by (simp_all add: la_def lb_def)
  have la: "0 < la" using a(2) assms(1) by (cases la) simp_all
  show ?thesis
  proof (cases "b * 2 ^ nat d \<le> a * 2 ^ nat (- d)")
    case True
    then have "float_exponent a b = d"
      by (simp add: float_exponent_def d_def la_def lb_def Let_def)
    then show ?thesis using True by simp
  next
    case False
    then have e: "float_exponent a b = d - 1"
      by (simp add: float_exponent_def d_def la_def lb_def Let_def)
    show ?thesis
    proof (cases "lb < la")
      case True
      then have n1: "nat (d - 1) = la - 1 - lb" and n2: "nat (1 - d) = 0"
        by (simp_all add: d_def)
      have "b * 2 ^ (la - 1 - lb) \<le> 2 ^ lb * 2 ^ (la - 1 - lb)"
        using b(2) by simp
      also have "\<dots> = 2 ^ (la - 1)"
      proof -
        have "la - 1 = lb + (la - 1 - lb)" using True by simp
        then have "(2::nat) ^ (la - 1) = 2 ^ (lb + (la - 1 - lb))" by simp
        then show ?thesis by (simp only: power_add)
      qed
      also have "\<dots> \<le> a" by (rule a(1))
      finally show ?thesis by (simp add: e n1 n2)
    next
      case False
      then have n1: "nat (d - 1) = 0" and n2: "nat (1 - d) = lb - la + 1"
        by (simp_all add: d_def)
      have "b \<le> 2 ^ lb" using b(2) by simp
      also have "\<dots> = 2 ^ (la - 1) * 2 ^ (lb - la + 1)"
      proof -
        have "lb = (la - 1) + (lb - la + 1)" using False la by simp
        then have "(2::nat) ^ lb = 2 ^ ((la - 1) + (lb - la + 1))" by simp
        then show ?thesis by (simp only: power_add)
      qed
      also have "\<dots> \<le> a * 2 ^ (lb - la + 1)" using a(1) by simp
      finally show ?thesis by (simp add: e n1 n2)
    qed
  qed
qed

lemma float_exponent_small:
  assumes "0 < a" and "0 < b" and "a < 2 ^ 52"
  shows "float_exponent a b \<le> 51"
proof (rule ccontr)
  assume "\<not> float_exponent a b \<le> 51"
  then have e: "52 \<le> float_exponent a b" by simp
  then have n: "nat (- float_exponent a b) = 0" and m: "52 \<le> nat (float_exponent a b)"
    by simp_all
  have "(2::nat) ^ 52 \<le> 2 ^ nat (float_exponent a b)"
    using m by (rule power_increasing) simp
  also have "\<dots> \<le> b * 2 ^ nat (float_exponent a b)" using assms(2) by simp
  also have "\<dots> \<le> a" using float_exponent_lower [OF assms(1,2)] by (simp add: n)
  finally show False using assms(3) by simp
qed

lemma float_exponent_scaled:
  assumes "0 < a" and "0 < b" and "float_exponent a b \<le> 51"
  shows "2 ^ 52 * b \<le> a * 2 ^ nat (52 - float_exponent a b)"
proof -
  define e where "e = float_exponent a b"
  have lo: "b * 2 ^ nat e \<le> a * 2 ^ nat (- e)"
    unfolding e_def using assms(1,2) by (rule float_exponent_lower)
  have e51: "e \<le> 51" using assms(3) by (simp add: e_def)
  show ?thesis
  proof (cases "0 \<le> e")
    case True
    then have n: "nat (- e) = 0" by simp
    have t: "nat e + nat (52 - e) = 52" using True e51 by simp
    have "2 ^ 52 * b = (b * 2 ^ nat e) * 2 ^ nat (52 - e)"
      by (simp add: t flip: power_add)
    also have "\<dots> \<le> a * 2 ^ nat (52 - e)" using lo n by simp
    finally show ?thesis by (simp add: e_def)
  next
    case False
    then have n: "nat e = 0" by simp
    have t: "nat (52 - e) = nat (- e) + 52" using False by simp
    have "2 ^ 52 * b \<le> 2 ^ 52 * (a * 2 ^ nat (- e))" using lo n by simp
    also have "\<dots> = a * 2 ^ nat (52 - e)" by (simp add: t power_add)
    finally show ?thesis by (simp add: e_def)
  qed
qed


lemma round_truediv_exact:
  assumes a: "0 < a" and b: "0 < b" and small: "a < 2 ^ 52"
  shows "round_truediv a b = py_round_div (int a) b"
proof -
  define e where "e = float_exponent a b"
  define T where "T = nat (52 - e)"
  have e51: "e \<le> 51" unfolding e_def using a b small by (rule float_exponent_small)
  then have T1: "1 \<le> T" by (simp add: T_def)
  have tneg: "\<not> 0 \<le> e - 52" using e51 by simp
  have nt: "nat (e - 52) = 0" "nat (- (e - 52)) = T" using e51 by (simp_all add: T_def)
  define A B where "A = int a" and "B = int b"
  define P :: int where "P = 2 ^ (T - 1)"
  have P: "0 < P" by (simp add: P_def)
  have twoP: "(2::int) ^ T = 2 * P"
    using T1 by (cases T) (simp_all add: P_def)
  have A: "0 < A" "A < 2 ^ 52" using a small by (simp_all add: A_def)
  have B: "0 < B" using b by (simp add: B_def)
  define m where "m = py_round_div (A * (2 * P)) b"
  define z where "z = py_round_div A b"
  have rt: "round_truediv a b = py_round_div m (2 ^ T)"
    using tneg nt twoP
    by (simp add: round_truediv_def Let_def m_def A_def flip: e_def)
  have scaled: "2 ^ 52 * B \<le> A * (2 * P)"
  proof -
    have "2 ^ 52 * b \<le> a * 2 ^ T"
      using float_exponent_scaled [OF a b] e51 by (simp add: e_def T_def)
    then have "int (2 ^ 52 * b) \<le> int (a * 2 ^ T)" by (simp only: of_nat_le_iff)
    then show ?thesis by (simp add: A_def B_def twoP)
  qed
  define u v where "u = (2 * z + 1) * B - 2 * A" and "v = 2 * A - (2 * z - 1) * B"
  have znear: "2 * \<bar>z * B - A\<bar> \<le> B"
    unfolding z_def B_def using b by (rule py_round_div_nearest)
  have ztie: "2 * \<bar>z * B - A\<bar> = B \<Longrightarrow> even z"
    unfolding z_def B_def using b by (rule py_round_div_tie_even)
  have u0: "0 \<le> u" and v0: "0 \<le> v"
    using znear by (cases "0 \<le> z * B - A"; simp add: u_def v_def algebra_simps)+
  have utie: "u = 0 \<Longrightarrow> 2 * \<bar>z * B - A\<bar> = B"
    using B by (cases "0 \<le> z * B - A"; simp add: u_def algebra_simps)
  have vtie: "v = 0 \<Longrightarrow> 2 * \<bar>z * B - A\<bar> = B"
    using B by (cases "0 \<le> z * B - A"; simp add: v_def algebra_simps)
  have up: "(z * (2 * P) + P) * B - A * (2 * P) = P * u"
    by (simp add: u_def algebra_simps)
  have down: "A * (2 * P) - (z * (2 * P) - P) * B = P * v"
    by (simp add: v_def algebra_simps)
  have Pu: "0 \<le> P * u" and Pv: "0 \<le> P * v" using P u0 v0 by simp_all
  have mle: "m \<le> z * (2 * P) + P"
    unfolding m_def
  proof (rule py_round_div_le [OF b])
    show "A * (2 * P) \<le> (z * (2 * P) + P) * int b"
      using up Pu by (simp add: B_def)
  qed
  have mge: "z * (2 * P) - P \<le> m"
    unfolding m_def
  proof (rule py_round_div_ge [OF b])
    show "(z * (2 * P) - P) * int b \<le> A * (2 * P)"
      using down Pv by (simp add: B_def)
  qed
  have mnear: "2 * \<bar>m * B - A * (2 * P)\<bar> \<le> B"
    unfolding m_def B_def using b by (rule py_round_div_nearest)
  have big: False if "2 * P \<le> B"
  proof -
    have "A * (2 * P) \<le> A * B" using that A(1) by simp
    then have "2 ^ 52 * B \<le> A * B" using scaled by simp
    then have "2 ^ 52 \<le> A" using B by simp
    then show False using A(2) by simp
  qed
  have pos_T: "0 < (2::nat) ^ T" by simp
  have cast: "int (2 ^ T) = 2 * P" using twoP by simp
  have "py_round_div m (2 ^ T) = z"
  proof (rule py_round_div_unique [OF pos_T])
    show "2 * \<bar>z * int (2 ^ T) - m\<bar> \<le> int (2 ^ T)"
      unfolding cast using mle mge by (cases "0 \<le> z * (2 * P) - m"; simp)
  next
    assume "2 * \<bar>z * int (2 ^ T) - m\<bar> = int (2 ^ T)"
    then have "2 * \<bar>z * (2 * P) - m\<bar> = 2 * P" unfolding cast .
    then consider "m = z * (2 * P) + P" | "m = z * (2 * P) - P"
      by (cases "0 \<le> z * (2 * P) - m"; simp; linarith)
    then show "even z"
    proof cases
      case 1
      have "m * B - A * (2 * P) = P * u" unfolding 1 by (rule up)
      then have "2 * (P * u) \<le> B" using mnear Pu by simp
      have "u = 0"
      proof (rule ccontr)
        assume "u \<noteq> 0"
        then have "1 \<le> u" using u0 by simp
        then have "P * 1 \<le> P * u" using P by (simp only: mult_le_cancel_left_pos)
        then have "2 * P \<le> B" using \<open>2 * (P * u) \<le> B\<close> by simp
        then show False by (rule big)
      qed
      then show ?thesis using utie ztie by blast
    next
      case 2
      have "A * (2 * P) - m * B = P * v" unfolding 2 by (rule down)
      then have "m * B - A * (2 * P) = - (P * v)" by simp
      then have "2 * (P * v) \<le> B" using mnear Pv by simp
      have "v = 0"
      proof (rule ccontr)
        assume "v \<noteq> 0"
        then have "1 \<le> v" using v0 by simp
        then have "P * 1 \<le> P * v" using P by (simp only: mult_le_cancel_left_pos)
        then have "2 * P \<le> B" using \<open>2 * (P * v) \<le> B\<close> by simp
        then show False by (rule big)
      qed
      then show ?thesis using vtie ztie by blast
    qed
  qed
  then show ?thesis by (simp add: rt z_def A_def)
qed

lemma py_round_truediv_exact:
  assumes "0 \<le> s" and "s < 2 ^ 52" and "0 < n"
  shows "py_round_truediv s n = py_round_div s n"
proof (cases "s = 0")
  case True
  then show ?thesis by (simp add: py_round_truediv_def py_round_div_def)
next
  case False
  then have p: "0 < nat s" using assms(1) by simp
  have "int (nat s) < int (2 ^ 52)" using assms(1,2) by simp
  then have l: "nat s < 2 ^ 52" by (simp only: of_nat_less_iff)
  have "round_truediv (nat s) n = py_round_div (int (nat s)) n"
    using p assms(3) l by (rule round_truediv_exact)
  then show ?thesis using False assms(1) by (simp add: py_round_truediv_def)
qed

lemma sum_list_filter_le:
  fixes f :: "'a \<Rightarrow> int"
  assumes "\<forall>x \<in> set xs. 0 \<le> f x"
  shows "sum_list (map f (filter P xs)) \<le> sum_list (map f xs)"
  using assms by (induction xs) auto

lemma sum_list_take_le:
  fixes f :: "'a \<Rightarrow> int"
  assumes "\<forall>x \<in> set xs. 0 \<le> f x"
  shows "sum_list (map f (take k xs)) \<le> sum_list (map f xs)"
  using assms
proof (induction xs arbitrary: k)
  case Nil
  then show ?case by simp
next
  case (Cons x xs)
  have "0 \<le> sum_list (map f xs)" using Cons.prems by (intro sum_list_nonneg) auto
  then show ?case using Cons by (cases k) auto
qed

lemma sum_list_map_mset:
  fixes f :: "'a \<Rightarrow> int"
  assumes "mset xs = mset ys"
  shows "sum_list (map f xs) = sum_list (map f ys)"
proof -
  have "sum_list (map f xs) = sum_mset (image_mset f (mset xs))"
    by (simp flip: sum_mset_sum_list)
  also have "\<dots> = sum_mset (image_mset f (mset ys))" by (simp only: assms)
  also have "\<dots> = sum_list (map f ys)" by (simp flip: sum_mset_sum_list)
  finally show ?thesis .
qed

lemma liked_sample_sum_bounds:
  assumes "sum_list (map likes (filter (\<lambda>c. 0 < likes c) comments)) < 2 ^ 52"
  shows "0 \<le> sum_list (map likes (containing w (top_liked (filter Q comments))))
    \<and> sum_list (map likes (containing w (top_liked (filter Q comments)))) < 2 ^ 52"
proof -
  let ?L = "filter Q comments"
  let ?pos = "filter (\<lambda>c. 0 < likes c) ?L"
  let ?top = "top_liked ?L"
  have m: "mset (liked_comments ?L) = mset ?pos"
    by (simp add: liked_comments_def mset_sort_reverse)
  then have "set (liked_comments ?L) = set ?pos" by (rule mset_eq_setD)
  then have lc: "\<forall>c \<in> set (liked_comments ?L). 0 \<le> likes c" by auto
  have "set ?top \<subseteq> set (liked_comments ?L)"
    unfolding top_liked_def by (rule set_take_subset)
  then have tp: "\<forall>c \<in> set ?top. 0 \<le> likes c" using lc by blast
  have "\<forall>c \<in> set (containing w ?top). 0 \<le> likes c"
    using tp by (simp add: containing_def)
  then have nonneg: "0 \<le> sum_list (map likes (containing w ?top))"
    by (intro sum_list_nonneg) auto
  have "sum_list (map likes (containing w ?top)) \<le> sum_list (map likes ?top)"
    unfolding containing_def using tp by (rule sum_list_filter_le)
  also have "\<dots> \<le> sum_list (map likes (liked_comments ?L))"
    unfolding top_liked_def using lc by (rule sum_list_take_le)
  also have "\<dots> = sum_list (map likes ?pos)"
    using m by (rule sum_list_map_mset)
  also have "?pos = filter Q (filter (\<lambda>c. 0 < likes c) comments)"
    by (simp add: conj_commute)
  also have "sum_list (map likes (filter Q (filter (\<lambda>c. 0 < likes c) comments)))
      \<le> sum_list (map likes (filter (\<lambda>c. 0 < likes c) comments))"
    by (rule sum_list_filter_le) simp
  finally have "sum_list (map likes (containing w ?top))
      \<le> sum_list (map likes (filter (\<lambda>c. 0 < likes c) comments))" .
  then show ?thesis using nonneg assms by simp
qed

lemma top_liked_words_as_take:
  "top_liked_words L
     = take 15 (sort_reverse (\<lambda>(word, avg, n). avg)
         (liked_word_averages (word_like_totals (top_liked L))))"
  by (simp add: top_liked_words_def word_like_totals_def liked_word_averages_def sort_reverse_def)

text \<open>
  Claim C7, amended. Take an input whose comment texts are ASCII and whose positive like
  counts sum to less than \<open>2^52\<close>. For a video of the input, with comment list \<open>L\<close>, the
  index holds \<open>video_word_freq L\<close>. The liked comments are those with a positive like count,
  sorted by like count, largest first, comments of equal like count staying in input
  order; the liked subset is their first \<open>max 1 (n div 5)\<close>, where \<open>n\<close> is their number: the
  fifth is rounded down. Provided no counted word occurs twice in one comment of the liked
  subset: the candidates are the words that at least 2 comments of the liked subset
  contain, in order of first appearance in the liked subset; a candidate's entry carries
  the number of those comments and their average like count rounded to the nearest
  integer (a tie to the even one), so like counts 20 and 10 give 15, and a word of exactly
  one liked comment is not ranked. The profile is the first 15 of the candidates sorted by
  score, largest first, candidates of equal score staying in their order: it has 15
  entries, or all candidates if there are fewer, and no candidate left out scores higher
  than one kept. With no positive like count the profile is empty.
\<close>

theorem liked_words_profile:
  assumes "c0 \<in> set comments"
    and "L = filter (\<lambda>c. video_id c = video_id c0) comments"
    and "\<forall>c \<in> set comments. is_ascii (get_or (comment_text c) [])"
    and "sum_list (map likes (filter (\<lambda>c. 0 < likes c) comments)) < 2 ^ 52"
    and "\<forall>c \<in> set (top_liked L). distinct (comment_words c)"
  shows "map_of (create_word_frequency_index comments) (video_id c0) = Some (video_word_freq L)
    \<and> liked_words (video_word_freq L)
        = map (\<lambda>(word, avg, n). \<lparr>word_l = word, avgLikes = avg, count_l = n\<rparr>) (top_liked_words L)
    \<and> mset (liked_comments L) = mset (filter (\<lambda>c. 0 < likes c) L)
    \<and> sorted_wrt (\<ge>) (map likes (liked_comments L))
    \<and> (\<forall>k. filter (\<lambda>c. likes c = k) (liked_comments L)
            = filter (\<lambda>c. likes c = k) (filter (\<lambda>c. 0 < likes c) L))
    \<and> top_liked L = take (max 1 (length (liked_comments L) div 5)) (liked_comments L)
    \<and> liked_word_averages (word_like_totals (top_liked L))
        = map (\<lambda>w. (w, py_round_div (sum_list (map likes (containing w (top_liked L))))
                         (length (containing w (top_liked L))),
                     length (containing w (top_liked L))))
            (filter (\<lambda>w. 2 \<le> length (containing w (top_liked L)))
               (unique_comments (concat (map comment_words (top_liked L)))))
    \<and> (\<forall>w a n. (w, a, n) \<in> set (liked_word_averages (word_like_totals (top_liked L))) \<longleftrightarrow>
          n = length (containing w (top_liked L)) \<and> 2 \<le> n
          \<and> a = py_round_div (sum_list (map likes (containing w (top_liked L)))) n)
    \<and> (\<forall>w a n. (w, a, n) \<in> set (liked_word_averages (word_like_totals (top_liked L))) \<longrightarrow>
          2 * \<bar>a * int n - sum_list (map likes (containing w (top_liked L)))\<bar> \<le> int n
          \<and> (2 * \<bar>a * int n - sum_list (map likes (containing w (top_liked L)))\<bar> = int n
                \<longrightarrow> even a))
    \<and> (\<forall>w. length (containing w (top_liked L)) = 1 \<longrightarrow> w \<notin> fst ` set (top_liked_words L))
    \<and> (\<forall>w. map likes (containing w (top_liked L)) = [20, 10] \<longrightarrow>
          (w, 15, 2) \<in> set (liked_word_averages (word_like_totals (top_liked L))))
    \<and> (\<exists>R. top_liked_words L = take 15 R
          \<and> mset R = mset (liked_word_averages (word_like_totals (top_liked L)))
          \<and> sorted_wrt (\<ge>) (map (\<lambda>x. fst (snd x)) R)
          \<and> (\<forall>a. filter (\<lambda>x. fst (snd x) = a) R
                 = filter (\<lambda>x. fst (snd x) = a)
                     (liked_word_averages (word_like_totals (top_liked L)))))
    \<and> length (top_liked_words L)
        = min 15 (length (liked_word_averages (word_like_totals (top_liked L))))
    \<and> sorted_wrt (\<ge>) (map (\<lambda>(word, avg, n). avg) (top_liked_words L))
    \<and> length (top_liked_words L) \<le> 15
    \<and> set (top_liked_words L) \<subseteq> set (liked_word_averages (word_like_totals (top_liked L)))
    \<and> (\<forall>x \<in> set (liked_word_averages (word_like_totals (top_liked L))) - set (top_liked_words L).
         \<forall>y \<in> set (top_liked_words L). fst (snd x) \<le> fst (snd y))
    \<and> (filter (\<lambda>c. 0 < likes c) L = [] \<longrightarrow> liked_words (video_word_freq L) = [])
    \<and> py_round_div (10 + 20) 2 = 15"
proof -
  let ?top = "top_liked L"
  let ?avgs = "liked_word_averages (word_like_totals ?top)"
  let ?f = "\<lambda>(word :: string, avg :: int, n :: nat). avg"
  have f: "?f = (\<lambda>x. fst (snd x))" by (simp add: fun_eq_iff)
  have occ: "occurrences w ?top = map likes (containing w ?top)" for w
    using assms(5) by (rule occurrences_once)
  have ex: "py_round_truediv (sum_list (map likes (containing w ?top))) n
      = py_round_div (sum_list (map likes (containing w ?top))) n" if "0 < n" for n w
  proof -
    from liked_sample_sum_bounds [OF assms(4), of w "\<lambda>c. video_id c = video_id c0"]
    have "0 \<le> sum_list (map likes (containing w ?top))"
      and "sum_list (map likes (containing w ?top)) < 2 ^ 52"
      unfolding assms(2) by simp_all
    then show ?thesis using that by (rule py_round_truediv_exact)
  qed
  have c1: "map_of (create_word_frequency_index comments) (video_id c0) = Some (video_word_freq L)"
    unfolding assms(2) using assms(1) by (rule create_word_frequency_index_lookup)
  have c2: "liked_words (video_word_freq L)
        = map (\<lambda>(word, avg, n). \<lparr>word_l = word, avgLikes = avg, count_l = n\<rparr>) (top_liked_words L)"
    by (simp add: video_word_freq_def)
  have c3: "mset (liked_comments L) = mset (filter (\<lambda>c. 0 < likes c) L)"
    by (simp add: liked_comments_def mset_sort_reverse)
  have c4: "sorted_wrt (\<ge>) (map likes (liked_comments L))"
    unfolding liked_comments_def by (rule sort_reverse_descending)
  have c4s: "\<forall>k. filter (\<lambda>c. likes c = k) (liked_comments L)
            = filter (\<lambda>c. likes c = k) (filter (\<lambda>c. 0 < likes c) L)"
    unfolding liked_comments_def by (rule allI) (rule sort_reverse_stable)
  have c5: "top_liked L = take (max 1 (length (liked_comments L) div 5)) (liked_comments L)"
    by (simp add: top_liked_def top_20_percent_def)
  have c5c: "?avgs
        = map (\<lambda>w. (w, py_round_div (sum_list (map likes (containing w ?top)))
                         (length (containing w ?top)),
                     length (containing w ?top)))
            (filter (\<lambda>w. 2 \<le> length (containing w ?top))
               (unique_comments (concat (map comment_words ?top))))"
  proof -
    have "py_round_truediv (sum_list (map likes (containing w ?top))) (length (containing w ?top))
        = py_round_div (sum_list (map likes (containing w ?top))) (length (containing w ?top))"
      if "2 \<le> length (containing w ?top)" for w
    proof (rule ex)
      show "0 < length (containing w ?top)" using that by linarith
    qed
    then show ?thesis
      unfolding liked_word_averages_as_map [OF assms(5)] by (intro map_cong) simp_all
  qed
  have c6: "(w, a, n) \<in> set ?avgs \<longleftrightarrow>
          n = length (containing w ?top) \<and> 2 \<le> n
          \<and> a = py_round_div (sum_list (map likes (containing w ?top))) n" for w a n
  proof (cases "2 \<le> n")
    case True
    then have "0 < n" by linarith
    note e = ex [OF this, of w]
    show ?thesis unfolding liked_word_averages_member occ e by auto
  next
    case False
    then show ?thesis unfolding liked_word_averages_member occ by auto
  qed
  have c7: "2 * \<bar>a * int n - sum_list (map likes (containing w ?top))\<bar> \<le> int n
          \<and> (2 * \<bar>a * int n - sum_list (map likes (containing w ?top))\<bar> = int n \<longrightarrow> even a)"
    if "(w, a, n) \<in> set ?avgs" for w a n
  proof -
    from that have "2 \<le> n" and a: "a = py_round_div (sum_list (map likes (containing w ?top))) n"
      unfolding c6 by simp_all
    then have n: "0 < n" by simp
    show ?thesis
      unfolding a using py_round_div_nearest [OF n] py_round_div_tie_even [OF n] by blast
  qed
  have sub: "set (top_liked_words L) \<subseteq> set ?avgs"
    using top_of_sorted [of ?f 15 ?avgs] by (auto simp: top_liked_words_def)
  have c8: "w \<notin> fst ` set (top_liked_words L)" if "length (containing w ?top) = 1" for w
  proof
    assume "w \<in> fst ` set (top_liked_words L)"
    then obtain a n where "(w, a, n) \<in> set (top_liked_words L)" by force
    then have "(w, a, n) \<in> set ?avgs" using sub by blast
    then have "2 \<le> length (containing w ?top)" unfolding c6 by blast
    then show False using that by simp
  qed
  have c9: "(w, 15, 2) \<in> set ?avgs" if "map likes (containing w ?top) = [20, 10]" for w
  proof -
    have "length (map likes (containing w ?top)) = 2" unfolding that by simp
    then have "length (containing w ?top) = 2" by simp
    then show ?thesis unfolding c6 that by (simp add: py_round_div_def)
  qed
  have r1: "top_liked_words L = take 15 (sort_reverse ?f ?avgs)"
    by (rule top_liked_words_as_take)
  have r2: "mset (sort_reverse ?f ?avgs) = mset ?avgs" by (rule mset_sort_reverse)
  have r3: "sorted_wrt (\<ge>) (map (\<lambda>x. fst (snd x)) (sort_reverse ?f ?avgs))"
    using sort_reverse_descending [of ?f ?avgs] unfolding f .
  have r4: "\<forall>a. filter (\<lambda>x. fst (snd x) = a) (sort_reverse ?f ?avgs)
                 = filter (\<lambda>x. fst (snd x) = a) ?avgs"
  proof
    fix a
    show "filter (\<lambda>x. fst (snd x) = a) (sort_reverse ?f ?avgs)
                 = filter (\<lambda>x. fst (snd x) = a) ?avgs"
      using sort_reverse_stable [of ?f a ?avgs] unfolding f .
  qed
  have c9r: "\<exists>R. top_liked_words L = take 15 R
          \<and> mset R = mset ?avgs
          \<and> sorted_wrt (\<ge>) (map (\<lambda>x. fst (snd x)) R)
          \<and> (\<forall>a. filter (\<lambda>x. fst (snd x) = a) R = filter (\<lambda>x. fst (snd x) = a) ?avgs)"
    using r1 r2 r3 r4 by blast
  have "length (sort_reverse ?f ?avgs) = length ?avgs"
    using r2 by (rule mset_eq_length)
  then have c9l: "length (top_liked_words L) = min 15 (length ?avgs)"
    unfolding r1 by simp
  have c10: "sorted_wrt (\<ge>) (map ?f (top_liked_words L))"
    using top_of_sorted [of ?f 15 ?avgs] by (simp add: top_liked_words_def)
  have c11: "length (top_liked_words L) \<le> 15" by (simp add: top_liked_words_def)
  have c12: "\<forall>x \<in> set ?avgs - set (top_liked_words L).
         \<forall>y \<in> set (top_liked_words L). fst (snd x) \<le> fst (snd y)"
  proof (cases "?top = []")
    case True
    then show ?thesis by (simp add: top_liked_words_def)
  next
    case False
    show ?thesis
      using top_of_sorted [of ?f 15 ?avgs] False f by (simp add: top_liked_words_def)
  qed
  have c13: "filter (\<lambda>c. 0 < likes c) L = [] \<longrightarrow> liked_words (video_word_freq L) = []"
    by (simp add: video_word_freq_def top_liked_words_def top_liked_def liked_comments_def
        sort_reverse_def)
  have c14: "py_round_div (10 + 20) 2 = 15" by (simp add: py_round_div_def)
  have c6': "\<forall>w a n. (w, a, n) \<in> set ?avgs \<longleftrightarrow>
          n = length (containing w ?top) \<and> 2 \<le> n
          \<and> a = py_round_div (sum_list (map likes (containing w ?top))) n"
    using c6 by blast
  have c7': "\<forall>w a n. (w, a, n) \<in> set ?avgs \<longrightarrow>
          2 * \<bar>a * int n - sum_list (map likes (containing w ?top))\<bar> \<le> int n
          \<and> (2 * \<bar>a * int n - sum_list (map likes (containing w ?top))\<bar> = int n \<longrightarrow> even a)"
    using c7 by blast
  have c8': "\<forall>w. length (containing w ?top) = 1 \<longrightarrow> w \<notin> fst ` set (top_liked_words L)"
    using c8 by blast
  have c9': "\<forall>w. map likes (containing w ?top) = [20, 10] \<longrightarrow> (w, 15, 2) \<in> set ?avgs"
    using c9 by blast
  show ?thesis
    by (intro conjI)
       (rule c1 c2 c3 c4 c4s c5 c5c c6' c7' c8' c9' c9r c9l c10 c11 sub c12 c13 c14)+
qed

lemmas eval_defs = mk_comment_def likes_def get_or_def liked_comments_def sort_reverse_def
  top_liked_def top_20_percent_def comment_words_def findall_words_def lower_def lower_char_def
  ascii_uppercase_def ascii_lowercase_def is_word_char_def is_alpha_def stop_words_def

lemma example_video_top_liked:
  "length (liked_comments example_video) = 6 \<and> map comment_id (top_liked example_video) = [''c1'']"
  by (simp add: example_video_def eval_defs)

lemma example_video_words: "top_liked_words example_video = []"
  by (simp add: example_video_def top_liked_words_def word_like_totals_def
      liked_word_averages_def dd_append_def dict_get_def eval_defs)

text \<open>
  Claim C7, as stated, takes the top \<open>ceil(20%)\<close> of the liked comments. The example video
  has six liked comments, so that would be two of them (and \<open>alpha\<close>, which both contain,
  would be ranked); the code takes \<open>max 1 (6 div 5) = 1\<close> and ranks nothing.
\<close>

theorem liked_subset_ceil_counterexample:
  "\<not> (length (top_liked example_video)
        = max 1 (nat \<lceil>real (length (liked_comments example_video)) / 5\<rceil>))
   \<and> length (liked_comments example_video) = 6
   \<and> length (top_liked example_video) = 1
   \<and> top_liked_words example_video = []"
proof -
  have a: "length (liked_comments example_video) = 6" using example_video_top_liked by blast
  have "length (map comment_id (top_liked example_video)) = 1"
    using example_video_top_liked by simp
  then have b: "length (top_liked example_video) = 1" by simp
  show ?thesis unfolding a b using example_video_words by simp
qed

lemma example_liked_top:
  "map comment_id (top_liked example_liked_video) = [''d4'', ''d2'']"
  by (simp add: example_liked_video_def eval_defs)

lemma example_liked_words:
  "top_liked_words example_liked_video = [(''great'', 15, 2), (''song'', 15, 2)]"
  by (simp add: example_liked_video_def top_liked_words_def word_like_totals_def
      liked_word_averages_def dd_append_def dict_get_def py_round_truediv_exact py_round_div_def eval_defs)

text \<open>
  The example video: the liked subset is the first two of the ten liked comments in the
  stable order, and \<open>great\<close> and \<open>song\<close> both score 15 and keep their order.
\<close>

theorem liked_words_profile_witness:
  "map_of (create_word_frequency_index example_liked_video) ''v''
     = Some (video_word_freq example_liked_video)
   \<and> liked_words (video_word_freq example_liked_video)
       = [\<lparr>word_l = ''great'', avgLikes = 15, count_l = 2\<rparr>,
          \<lparr>word_l = ''song'', avgLikes = 15, count_l = 2\<rparr>]
   \<and> map comment_id (top_liked example_liked_video) = [''d4'', ''d2'']
   \<and> map likes (containing ''great'' (top_liked example_liked_video)) = [20, 10]
   \<and> liked_word_averages (word_like_totals (top_liked example_liked_video))
       = [(''great'', 15, 2), (''song'', 15, 2)]"
proof -
  let ?c0 = "mk_comment ''v'' ''d1'' ''meh'' ''A'' 1"
  have tl: "top_liked example_liked_video
      = [mk_comment ''v'' ''d4'' ''great song'' ''D'' 20,
         mk_comment ''v'' ''d2'' ''Great song video'' ''B'' 10]"
    by (simp add: example_liked_video_def eval_defs)
  have h1: "?c0 \<in> set example_liked_video" by (simp add: example_liked_video_def)
  have v: "video_id ?c0 = ''v''" by (simp add: mk_comment_def)
  have h2: "example_liked_video = filter (\<lambda>c. video_id c = video_id ?c0) example_liked_video"
    by (simp add: example_liked_video_def mk_comment_def)
  have h3: "\<forall>c \<in> set example_liked_video. is_ascii (get_or (comment_text c) [])"
    by (simp add: example_liked_video_def mk_comment_def get_or_def is_ascii_def)
  have h4: "sum_list (map likes (filter (\<lambda>c. 0 < likes c) example_liked_video)) < 2 ^ 52"
    by (simp add: example_liked_video_def mk_comment_def likes_def get_or_def)
  have h5: "\<forall>c \<in> set (top_liked example_liked_video). distinct (comment_words c)"
    unfolding tl by (simp add: eval_defs)
  have g: "map likes (containing ''great'' (top_liked example_liked_video)) = [20, 10]"
    unfolding tl by (simp add: containing_def eval_defs)
  have gl: "length (containing ''great'' (top_liked example_liked_video)) = 2"
    unfolding tl by (simp add: containing_def eval_defs)
  have g2: "map likes (containing ''song'' (top_liked example_liked_video)) = [20, 10]"
    unfolding tl by (simp add: containing_def eval_defs)
  have gl2: "length (containing ''song'' (top_liked example_liked_video)) = 2"
    unfolding tl by (simp add: containing_def eval_defs)
  have cw: "filter (\<lambda>w. 2 \<le> length (containing w (top_liked example_liked_video)))
               (unique_comments (concat (map comment_words (top_liked example_liked_video))))
      = [''great'', ''song'']"
    unfolding tl
    by (simp add: containing_def unique_comments_def dict_fromkeys_def list_of_dict_def eval_defs)
  note t = liked_words_profile [OF h1 h2 h3 h4 h5]
  from t have "map_of (create_word_frequency_index example_liked_video) (video_id ?c0)
     = Some (video_word_freq example_liked_video)"
    by (elim conjE)
  then have a: "map_of (create_word_frequency_index example_liked_video) ''v''
     = Some (video_word_freq example_liked_video)"
    unfolding v .
  from t have "liked_words (video_word_freq example_liked_video)
        = map (\<lambda>(word, avg, n). \<lparr>word_l = word, avgLikes = avg, count_l = n\<rparr>)
            (top_liked_words example_liked_video)"
    by (elim conjE)
  then have b: "liked_words (video_word_freq example_liked_video)
       = [\<lparr>word_l = ''great'', avgLikes = 15, count_l = 2\<rparr>,
          \<lparr>word_l = ''song'', avgLikes = 15, count_l = 2\<rparr>]"
    by (simp add: example_liked_words)
  from t have "liked_word_averages (word_like_totals (top_liked example_liked_video))
        = map (\<lambda>w. (w, py_round_div (sum_list (map likes (containing w (top_liked example_liked_video))))
                         (length (containing w (top_liked example_liked_video))),
                     length (containing w (top_liked example_liked_video))))
            (filter (\<lambda>w. 2 \<le> length (containing w (top_liked example_liked_video)))
               (unique_comments (concat (map comment_words (top_liked example_liked_video)))))"
    by (elim conjE)
  then have c: "liked_word_averages (word_like_totals (top_liked example_liked_video))
       = [(''great'', 15, 2), (''song'', 15, 2)]"
    unfolding cw using g gl g2 gl2 by (simp add: py_round_div_def)
  have d: "map comment_id (top_liked example_liked_video) = [''d4'', ''d2'']"
    unfolding tl by (simp add: mk_comment_def)
  show ?thesis by (intro conjI) (rule a b d g c)+
qed

text \<open>
  Outside the hypothesis of the theorem above: a word that occurs twice in one comment of
  the liked subset is sampled twice, so the only liked comment of this video is enough to
  rank its word (the comment in the source reads ``Word appears in at least 2 liked
  comments'').
\<close>

lemma repeated_word_sampled_per_occurrence:
  "top_liked_words example_repeated_word = [(''wow'', 5, 2)]
   \<and> length (containing ''wow'' (top_liked example_repeated_word)) = 1"
  by (simp add: example_repeated_word_def top_liked_words_def word_like_totals_def
      liked_word_averages_def dd_append_def dict_get_def py_round_truediv_exact py_round_div_def containing_def eval_defs)

section \<open>Properties of reading the log files\<close>

lemma key_eq_refl: "key_eq a a"
  by (simp add: key_eq_def)




lemma parse_logs_chars: "parse_logs sc (map (\<lambda>c. JStr [c]) s) d = (d, False)"
  by (induction s) simp_all

lemma parse_logs_wf:
  "parse_logs (JStr sc) (wf_logs idss) d
     = (fold (\<lambda>ids d. dd_extend (JStr sc) (map JStr ids) d) idss d, False)"
  by (induction idss arbitrary: d) (simp_all add: wf_logs_def json_get_def)

lemma parse_entry_bad_logs:
  assumes "map_of kv ''logs'' = Some (JStr s)"
  shows "parse_entries (JDict kv # rest) st
     = parse_entries rest
         (st\<lparr>total_entries_p := total_entries_p st
               + (if truthy (json_get kv ''target'' (JStr [])) then 1 else 0)\<rparr>)"
  using assms by (simp add: json_get_def [of kv "''logs''"] parse_logs_chars Let_def)

lemma parse_entry_wf:
  assumes "sc \<noteq> []"
  shows "parse_entries (wf_entry sc idss # rest) st
     = parse_entries rest
         (st\<lparr>shortcode_comments :=
                 fold (\<lambda>ids d. dd_extend (JStr sc) (map JStr ids) d) idss (shortcode_comments st),
             total_entries_p := total_entries_p st + 1\<rparr>)"
  using assms by (simp add: wf_entry_def json_get_def parse_logs_wf Let_def)

lemma set_update_strings: "snd (set_update s (map JStr ids)) = False"
  by (induction ids arbitrary: s) simp_all

lemma analyze_logs_wf:
  "analyze_logs (JStr sc) (wf_logs idss) a
     = (a\<lparr>shortcode_to_comments :=
              fst (wf_effect sc idss (shortcode_to_comments a, all_comment_ids a)),
           all_comment_ids :=
              snd (wf_effect sc idss (shortcode_to_comments a, all_comment_ids a))\<rparr>, False)"
proof (induction idss arbitrary: a)
  case Nil
  then show ?case by (simp add: wf_logs_def wf_effect_def)
next
  case (Cons ids idss)
  obtain s r where su: "set_update (dd_lookup (shortcode_to_comments a) (JStr sc)) (map JStr ids) = (s, r)"
    by (cases "set_update (dd_lookup (shortcode_to_comments a) (JStr sc)) (map JStr ids)")
  have r: "r = False"
    using set_update_strings [of "dd_lookup (shortcode_to_comments a) (JStr sc)" ids] su by simp
  have step: "analyze_logs (JStr sc) (wf_logs (ids # idss)) a
      = analyze_logs (JStr sc) (wf_logs idss)
          (a\<lparr>shortcode_to_comments := dd_put (JStr sc) s (shortcode_to_comments a),
             all_comment_ids := all_comment_ids a @ map JStr ids\<rparr>)"
    using su r by (simp add: wf_logs_def json_get_def)
  show ?case
    unfolding step Cons.IH using su by (simp add: wf_effect_def)
qed

lemma analyze_entry_bad_logs:
  assumes "map_of kv ''logs'' = Some (JStr s)"
  shows "analyze_entry (JDict kv) a = a\<lparr>total_entries := total_entries a + 1\<rparr>"
  using assms by (simp add: analyze_entry_def json_get_def [of kv "''logs''"] Let_def)

lemma analyze_entry_wf:
  assumes "sc \<noteq> []"
  shows "analyze_entry (wf_entry sc idss) a
     = a\<lparr>total_entries := total_entries a + 1,
         shortcode_to_comments :=
           fst (wf_effect sc idss (shortcode_to_comments a, all_comment_ids a)),
         all_comment_ids :=
           snd (wf_effect sc idss (shortcode_to_comments a, all_comment_ids a))\<rparr>"
  using assms by (simp add: analyze_entry_def wf_entry_def json_get_def analyze_logs_wf Let_def)

lemma snd_wf_effect: "snd (wf_effect sc idss (S, I)) = I @ map JStr (concat idss)"
  by (induction idss arbitrary: S I) (simp_all add: wf_effect_def)

text \<open>
  Claim C8, as stated, has one processed entry and one error entry counted for a file with
  a well-formed entry and an entry whose \<open>logs\<close> is a string. On the example file
  \<open>analyze_json_file\<close> counts two entries and no error, and \<open>parse_json_files\<close> (which has no
  error counter) counts two entries.
\<close>

theorem malformed_logs_counts_counterexample:
  "\<not> (map_option total_entries (analyze_json_file (Some example_file)) = Some 1
      \<and> map_option error_entries (analyze_json_file (Some example_file)) = Some 1)
   \<and> map_option total_entries (analyze_json_file (Some example_file)) = Some 2
   \<and> map_option error_entries (analyze_json_file (Some example_file)) = Some 0
   \<and> total_entries_p (parse_json_files [Some example_file]) = 2"
  by (simp add: example_file_def wf_entry_def wf_logs_def analyze_entry_def json_get_def
      parse_json_files_def Let_def dd_extend_def)

text \<open>
  Claim C8, amended. Take a well-formed entry and an entry whose \<open>logs\<close> field is a string,
  in either order. \<open>analyze_json_file\<close> returns a result (it does not raise): exactly what
  it returns for the file with the well-formed entry alone -- the same per-post sets, the
  same list of comment identifiers, no error entry -- except that \<open>total_entries\<close> is 2,
  since every entry is counted before it is looked at. \<open>parse_json_files\<close> likewise ends
  with the mapping of the well-formed entry alone; its entry count is 2 when the malformed
  entry has a non-empty \<open>target\<close> and 1 otherwise.
\<close>

theorem malformed_logs_entry_skipped:
  assumes "sc \<noteq> []" and "map_of kv ''logs'' = Some (JStr s)"
  shows "(\<exists>a. analyze_json_file (Some (JDict [(k1, wf_entry sc idss)])) = Some a
            \<and> total_entries a = 1 \<and> error_entries a = 0
            \<and> all_comment_ids a = map JStr (concat idss)
            \<and> analyze_json_file (Some (JDict [(k1, wf_entry sc idss), (k2, JDict kv)]))
                = Some (a\<lparr>total_entries := 2\<rparr>)
            \<and> analyze_json_file (Some (JDict [(k2, JDict kv), (k1, wf_entry sc idss)]))
                = Some (a\<lparr>total_entries := 2\<rparr>)
            \<and> analyze_json_file (Some (JList [wf_entry sc idss, JDict kv]))
                = Some (a\<lparr>total_entries := 2\<rparr>))
       \<and> (\<exists>st. parse_json_files [Some (JDict [(k1, wf_entry sc idss)])] = st
            \<and> total_entries_p st = 1
            \<and> parse_json_files [Some (JDict [(k1, wf_entry sc idss), (k2, JDict kv)])]
                = st\<lparr>total_entries_p :=
                       1 + (if truthy (json_get kv ''target'' (JStr [])) then 1 else 0)\<rparr>
            \<and> parse_json_files [Some (JDict [(k2, JDict kv), (k1, wf_entry sc idss)])]
                = st\<lparr>total_entries_p :=
                       1 + (if truthy (json_get kv ''target'' (JStr [])) then 1 else 0)\<rparr>)"
proof -
  have a: "\<exists>a. analyze_json_file (Some (JDict [(k1, wf_entry sc idss)])) = Some a
            \<and> total_entries a = 1 \<and> error_entries a = 0
            \<and> all_comment_ids a = map JStr (concat idss)
            \<and> analyze_json_file (Some (JDict [(k1, wf_entry sc idss), (k2, JDict kv)]))
                = Some (a\<lparr>total_entries := 2\<rparr>)
            \<and> analyze_json_file (Some (JDict [(k2, JDict kv), (k1, wf_entry sc idss)]))
                = Some (a\<lparr>total_entries := 2\<rparr>)
            \<and> analyze_json_file (Some (JList [wf_entry sc idss, JDict kv]))
                = Some (a\<lparr>total_entries := 2\<rparr>)"
    by (simp add: analyze_entry_wf [OF assms(1)] analyze_entry_bad_logs [OF assms(2)]
        snd_wf_effect)
  have b: "\<exists>st. parse_json_files [Some (JDict [(k1, wf_entry sc idss)])] = st
            \<and> total_entries_p st = 1
            \<and> parse_json_files [Some (JDict [(k1, wf_entry sc idss), (k2, JDict kv)])]
                = st\<lparr>total_entries_p :=
                       1 + (if truthy (json_get kv ''target'' (JStr [])) then 1 else 0)\<rparr>
            \<and> parse_json_files [Some (JDict [(k2, JDict kv), (k1, wf_entry sc idss)])]
                = st\<lparr>total_entries_p :=
                       1 + (if truthy (json_get kv ''target'' (JStr [])) then 1 else 0)\<rparr>"
    by (simp add: parse_json_files_def parse_entry_wf [OF assms(1)]
        parse_entry_bad_logs [OF assms(2)] del: parse_entries.simps(2))
  from a b show ?thesis by (rule conjI)
qed

text \<open>The example file, evaluated by both functions.\<close>

theorem malformed_logs_entry_skipped_witness:
  "analyze_json_file (Some example_file)
     = Some \<lparr>shortcode_to_comments = [(JStr ''ABC123'', [JStr ''c1'', JStr ''c2'', JStr ''c3''])],
             all_comment_ids = [JStr ''c1'', JStr ''c2'', JStr ''c2'', JStr ''c3''],
             total_entries = 2, error_entries = 0\<rparr>
   \<and> parse_json_files [Some example_file]
     = \<lparr>shortcode_comments = [(JStr ''ABC123'', [JStr ''c1'', JStr ''c2'', JStr ''c2'', JStr ''c3''])],
        total_entries_p = 2\<rparr>"
proof -
  have h1: "''ABC123'' \<noteq> []" by simp
  have h2: "map_of [(''target'', JStr ''XYZ789''), (''logs'', JStr ''oops'')] ''logs''
      = Some (JStr ''oops'')" by simp
  note t = malformed_logs_entry_skipped [OF h1 h2,
      of "''u1''" "[[''c1'', ''c2''], [''c2'', ''c3'']]" "''u2''"]
  have g: "analyze_json_file (Some (JDict [(''u1'', wf_entry ''ABC123'' [[''c1'', ''c2''], [''c2'', ''c3'']])]))
      = Some \<lparr>shortcode_to_comments = [(JStr ''ABC123'', [JStr ''c1'', JStr ''c2'', JStr ''c3''])],
             all_comment_ids = [JStr ''c1'', JStr ''c2'', JStr ''c2'', JStr ''c3''],
             total_entries = 1, error_entries = 0\<rparr>"
    by (simp add: wf_entry_def wf_logs_def analyze_entry_def json_get_def Let_def set_add_def
        key_eq_def)
  have p: "parse_json_files [Some (JDict [(''u1'', wf_entry ''ABC123'' [[''c1'', ''c2''], [''c2'', ''c3'']])])]
      = \<lparr>shortcode_comments = [(JStr ''ABC123'', [JStr ''c1'', JStr ''c2'', JStr ''c2'', JStr ''c3''])],
        total_entries_p = 1\<rparr>"
    by (simp add: wf_entry_def wf_logs_def parse_json_files_def json_get_def Let_def
        dd_extend_def key_eq_def)
  from t g p show ?thesis
    by (auto simp: example_file_def json_get_def)
qed




















end
